theory Spec2Isabelle
  imports Main "HOL-Library.Char_ord" "HOL-Library.Sublist"
begin

section \<open>Strings as the component uses them\<close>

text \<open>
  The component (\<^verbatim>\<open>frontend/components/shield-chat.tsx\<close>) works on JavaScript strings
  and offsets into them. A string is modelled as a \<^typ>\<open>string\<close>, a list with one
  character for each code unit of the JavaScript string; the characters of the model
  are those with codes below 256. An offset is a \<^typ>\<open>nat\<close>; the value \<^verbatim>\<open>-1\<close> of
  \<^verbatim>\<open>indexOf\<close> and the \<^verbatim>\<open>null\<close> of \<^verbatim>\<open>exec\<close> and \<^verbatim>\<open>match\<close> are \<^term>\<open>None\<close>.
\<close>

text \<open>\<^verbatim>\<open>s.slice(a, b)\<close> for offsets \<open>0 \<le> a\<close>, \<open>0 \<le> b\<close>: empty when \<open>b \<le> a\<close>, clamped to the
  length of \<open>s\<close>.\<close>

definition slice :: "string \<Rightarrow> nat \<Rightarrow> nat \<Rightarrow> string" where
  "slice s a b = take (b - a) (drop a s)"

text \<open>\<^verbatim>\<open>s.slice(a)\<close>: the rest of the string from offset \<open>a\<close>.\<close>

definition slice_from :: "string \<Rightarrow> nat \<Rightarrow> string" where
  "slice_from s a = drop a s"

text \<open>The search of \<^verbatim>\<open>indexOf\<close> over the rest \<open>xs\<close> of the string, which starts at offset \<open>k\<close>.\<close>

fun indexOf_aux :: "string \<Rightarrow> string \<Rightarrow> nat \<Rightarrow> nat option" where
  "indexOf_aux pat [] k = (if pat = [] then Some k else None)"
| "indexOf_aux pat (x # xs) k =
     (if prefix pat (x # xs) then Some k else indexOf_aux pat xs (Suc k))"

text \<open>\<^verbatim>\<open>s.indexOf(pat, pos)\<close>: the least offset \<open>k \<ge> pos\<close> at which \<open>pat\<close> occurs in \<open>s\<close>;
  the position is clamped to the length of \<open>s\<close>.\<close>

definition indexOf :: "string \<Rightarrow> string \<Rightarrow> nat \<Rightarrow> nat option" where
  "indexOf s pat pos = (let k = min pos (length s) in indexOf_aux pat (drop k s) k)"

text \<open>\<^verbatim>\<open>s.includes(pat)\<close>.\<close>

definition includes_str :: "string \<Rightarrow> string \<Rightarrow> bool" where
  "includes_str s pat = (indexOf s pat 0 \<noteq> None)"

text \<open>\<^verbatim>\<open>s.replace(pat, rep)\<close> with a string pattern: only the first occurrence is
  replaced (none of the replacement texts used below contains \<^verbatim>\<open>$\<close>).\<close>

definition replace :: "string \<Rightarrow> string \<Rightarrow> string \<Rightarrow> string" where
  "replace s pat rep =
     (case indexOf s pat 0 of
        None \<Rightarrow> s
      | Some k \<Rightarrow> take k s @ rep @ drop (k + length pat) s)"

section \<open>Regular expressions\<close>

text \<open>
  The patterns of the component use character classes, literals, sequence, alternation,
  the greedy quantifiers \<^verbatim>\<open>?\<close>, \<^verbatim>\<open>+\<close>, \<^verbatim>\<open>{m}\<close>, \<^verbatim>\<open>{m,}\<close>, \<^verbatim>\<open>{m,n}\<close> and the assertions
  \<^verbatim>\<open>\b\<close>, \<^verbatim>\<open>^\<close>, \<^verbatim>\<open>$\<close>. Every counted quantifier of the source is applied to a single
  character class, so \<open>Rep\<close> takes a class; \<^verbatim>\<open>?\<close> is also applied to a group, so \<open>Opt\<close>
  takes an expression. Groups only capture and do not change what is matched.
\<close>

definition is_digit :: "char \<Rightarrow> bool" where
  "is_digit c = (CHR ''0'' \<le> c \<and> c \<le> CHR ''9'')"

definition is_upper :: "char \<Rightarrow> bool" where
  "is_upper c = (CHR ''A'' \<le> c \<and> c \<le> CHR ''Z'')"

definition is_lower :: "char \<Rightarrow> bool" where
  "is_lower c = (CHR ''a'' \<le> c \<and> c \<le> CHR ''z'')"

text \<open>\<^verbatim>\<open>\w\<close>, which decides the word boundary \<^verbatim>\<open>\b\<close>.\<close>

definition is_word :: "char \<Rightarrow> bool" where
  "is_word c = (is_upper c \<or> is_lower c \<or> is_digit c \<or> c = CHR ''_'')"

text \<open>\<^verbatim>\<open>\s\<close> among the characters below 256: tab, line feed, vertical tab, form feed,
  carriage return, space and the no-break space.\<close>

definition is_space :: "char \<Rightarrow> bool" where
  "is_space c = (c \<in> set [CHR 0x09, CHR 0x0A, CHR 0x0B, CHR 0x0C, CHR 0x0D, CHR 0x20, CHR 0xA0])"

datatype rx =
    Cls "char \<Rightarrow> bool"
  | Lit string
  | Cat rx rx
  | Alt rx rx
  | Opt rx
  | Rep nat "nat option" "char \<Rightarrow> bool"
  | WordB
  | Bol
  | Eol

text \<open>The number of characters from offset \<open>i\<close> on that belong to the class \<open>p\<close>.\<close>

definition run :: "(char \<Rightarrow> bool) \<Rightarrow> string \<Rightarrow> nat \<Rightarrow> nat" where
  "run p s i = length (takeWhile p (drop i s))"

text \<open>Is there a word character at offset \<open>i\<close>?\<close>

definition word_at :: "string \<Rightarrow> nat \<Rightarrow> bool" where
  "word_at s i = (i < length s \<and> is_word (s ! i))"

text \<open>
  \<open>ends r s i\<close> lists the offsets at which a match of \<open>r\<close> that starts at offset \<open>i\<close> of
  \<open>s\<close> can end, in the order in which the backtracking matcher tries them: a greedy
  quantifier tries the longest run first, an alternative its left branch first. The
  first offset of the list for the whole pattern is the match that \<^verbatim>\<open>exec\<close> reports.
  An iteration of \<^verbatim>\<open>?\<close> that consumes nothing is rejected, as the matcher does.
\<close>

fun ends :: "rx \<Rightarrow> string \<Rightarrow> nat \<Rightarrow> nat list" where
  "ends (Cls p) s i = (if i < length s \<and> p (s ! i) then [Suc i] else [])"
| "ends (Lit w) s i = (if i \<le> length s \<and> prefix w (drop i s) then [i + length w] else [])"
| "ends (Cat r1 r2) s i = concat (map (ends r2 s) (ends r1 s i))"
| "ends (Alt r1 r2) s i = ends r1 s i @ ends r2 s i"
| "ends (Opt r) s i = filter (\<lambda>e. e \<noteq> i) (ends r s i) @ [i]"
| "ends (Rep mn mx p) s i =
     (let k = (case mx of None \<Rightarrow> run p s i | Some m \<Rightarrow> min m (run p s i))
      in if k < mn then [] else map (\<lambda>j. i + j) (rev [mn..<Suc k]))"
| "ends WordB s i = (if (0 < i \<and> word_at s (i - 1)) \<noteq> word_at s i then [i] else [])"
| "ends Bol s i = (if i = 0 then [i] else [])"
| "ends Eol s i = (if i = length s then [i] else [])"

text \<open>A sequence of expressions.\<close>

definition cats :: "rx list \<Rightarrow> rx" where
  "cats rs = foldr Cat rs (Lit [])"

text \<open>
  \<open>exec r s lastIndex\<close> is one call of \<^verbatim>\<open>regex.exec(s)\<close> with \<^verbatim>\<open>regex.lastIndex = lastIndex\<close>
  on a global pattern: the first offset from \<open>lastIndex\<close> on at which the pattern
  matches, with the end of that match (the new \<^verbatim>\<open>lastIndex\<close>), or \<^term>\<open>None\<close>.
\<close>

definition exec :: "rx \<Rightarrow> string \<Rightarrow> nat \<Rightarrow> (nat \<times> nat) option" where
  "exec r s lastIndex =
     (case filter (\<lambda>j. ends r s j \<noteq> []) [lastIndex..<Suc (length s)] of
        [] \<Rightarrow> None
      | j # _ \<Rightarrow> Some (j, hd (ends r s j)))"

text \<open>\<^verbatim>\<open>s.match(r)\<close> on a pattern without the global flag, read as a condition.\<close>

definition matches_rx :: "string \<Rightarrow> rx \<Rightarrow> bool" where
  "matches_rx s r = (exec r s 0 \<noteq> None)"

text \<open>A lower bound on the number of characters a match consumes.\<close>

fun minlen :: "rx \<Rightarrow> nat" where
  "minlen (Cls p) = 1"
| "minlen (Lit w) = length w"
| "minlen (Cat r1 r2) = minlen r1 + minlen r2"
| "minlen (Alt r1 r2) = min (minlen r1) (minlen r2)"
| "minlen (Opt r) = 0"
| "minlen (Rep mn mx p) = mn"
| "minlen WordB = 0"
| "minlen Bol = 0"
| "minlen Eol = 0"

section \<open>Spans and the pattern catalog\<close>

record PIIMatch =
  type :: string
  original :: string
  replacement :: string
  start :: nat
  end' :: nat

text \<open>The character classes of the patterns below.\<close>

definition dash_or_space :: "char \<Rightarrow> bool" where
  "dash_or_space c = (c = CHR ''-'' \<or> is_space c)"

definition email_local_char :: "char \<Rightarrow> bool" where
  "email_local_char c = (is_upper c \<or> is_lower c \<or> is_digit c \<or> c \<in> set ''._%+-'')"

definition email_domain_char :: "char \<Rightarrow> bool" where
  "email_domain_char c = (is_upper c \<or> is_lower c \<or> is_digit c \<or> c \<in> set ''.-'')"

definition email_tld_char :: "char \<Rightarrow> bool" where
  "email_tld_char c = (is_upper c \<or> c = CHR ''|'' \<or> is_lower c)"

definition phone_sep :: "char \<Rightarrow> bool" where
  "phone_sep c = (c = CHR ''-'' \<or> c = CHR ''.'' \<or> is_space c)"

definition digit_or_upper :: "char \<Rightarrow> bool" where
  "digit_or_upper c = (is_digit c \<or> is_upper c)"

definition alnum :: "char \<Rightarrow> bool" where
  "alnum c = (is_lower c \<or> is_upper c \<or> is_digit c)"

definition phone_char :: "char \<Rightarrow> bool" where
  "phone_char c = (is_digit c \<or> is_space c \<or> c \<in> set ''-()'')"

definition label_char :: "char \<Rightarrow> bool" where
  "label_char c = (is_upper c \<or> c = CHR ''_'')"

text \<open>\<^verbatim>\<open>\d{n}\<close>.\<close>

definition digits :: "nat \<Rightarrow> rx" where
  "digits n = Rep n (Some n) is_digit"

text \<open>\<^verbatim>\<open>PII_PATTERNS\<close>: type, pattern and replacement label of each entry, in the order of
  the source.\<close>

definition PII_PATTERNS :: "(string \<times> rx \<times> string) list" where
  "PII_PATTERNS =
    [(''CREDIT_CARD'',
      cats [WordB, digits 4, Opt (Cls dash_or_space), digits 4, Opt (Cls dash_or_space),
            digits 4, Opt (Cls dash_or_space), digits 4, WordB],
      ''[REDACTED_CC]''),
     (''SSN'',
      cats [WordB, digits 3, Opt (Lit ''-''), digits 2, Opt (Lit ''-''), digits 4, WordB],
      ''[REDACTED_SSN]''),
     (''EMAIL'',
      cats [WordB, Rep 1 None email_local_char, Lit ''@'', Rep 1 None email_domain_char,
            Lit ''.'', Rep 2 None email_tld_char, WordB],
      ''[REDACTED_EMAIL]''),
     (''PHONE'',
      cats [WordB, Opt (cats [Opt (Lit ''+''), Lit ''1'', Opt (Cls phone_sep)]),
            Opt (Lit ''(''), digits 3, Opt (Lit '')''), Opt (Cls phone_sep), digits 3,
            Opt (Cls phone_sep), digits 4, WordB],
      ''[REDACTED_PHONE]''),
     (''AWS_KEY'',
      cats [WordB, Lit ''AKIA'', Rep 16 (Some 16) digit_or_upper, WordB],
      ''[REDACTED_AWS_KEY]''),
     (''API_KEY'',
      cats [WordB, Lit ''sk-'', Rep 32 None alnum, WordB],
      ''[REDACTED_API_KEY]''),
     (''IP_ADDRESS'',
      cats [WordB, Rep 1 (Some 3) is_digit, Lit ''.'', Rep 1 (Some 3) is_digit, Lit ''.'',
            Rep 1 (Some 3) is_digit, Lit ''.'', Rep 1 (Some 3) is_digit, WordB],
      ''[REDACTED_IP]'')]"

section \<open>The local span detector\<close>

text \<open>
  The inner loop of \<^verbatim>\<open>detectPII\<close>: \<^verbatim>\<open>while ((match = regex.exec(text)) !== null)\<close>, which
  pushes one span for each match and goes on from the end of the match. Nothing in the
  loop itself makes it end, so it is a partial function: \<^term>\<open>None\<close> stands for a run
  that does not return.
\<close>

partial_function (option) detect_loop ::
  "string \<times> rx \<times> string \<Rightarrow> string \<Rightarrow> nat \<Rightarrow> PIIMatch list \<Rightarrow> PIIMatch list option" where
  "detect_loop pattern text lastIndex acc =
     (case exec (fst (snd pattern)) text lastIndex of
        None \<Rightarrow> Some acc
      | Some (index, e) \<Rightarrow>
          detect_loop pattern text e
            (acc @ [\<lparr>type = fst pattern,
                     original = slice text index e,
                     replacement = snd (snd pattern),
                     start = index,
                     end' = index + length (slice text index e)\<rparr>]))"

text \<open>The outer loop over the catalog; each pattern is compiled afresh and so starts at
  \<^verbatim>\<open>lastIndex = 0\<close>.\<close>

fun detect_patterns ::
  "(string \<times> rx \<times> string) list \<Rightarrow> string \<Rightarrow> PIIMatch list \<Rightarrow> PIIMatch list option" where
  "detect_patterns [] text acc = Some acc"
| "detect_patterns (pattern # rest) text acc =
     (case detect_loop pattern text 0 acc of
        None \<Rightarrow> None
      | Some acc' \<Rightarrow> detect_patterns rest text acc')"

text \<open>\<^verbatim>\<open>.sort((a, b) => a.start - b.start)\<close>: the sort of an array is stable.\<close>

definition sort_by_start :: "PIIMatch list \<Rightarrow> PIIMatch list" where
  "sort_by_start ms = sort_key start ms"

definition detectPII :: "string \<Rightarrow> PIIMatch list option" where
  "detectPII text = map_option sort_by_start (detect_patterns PII_PATTERNS text [])"

section \<open>Entity labels\<close>

text \<open>The chain of \<^verbatim>\<open>.replace\<close> calls of \<^verbatim>\<open>normalizeEntityType\<close>, in order.\<close>

definition normalize_rules :: "(string \<times> string) list" where
  "normalize_rules =
    [(''EMAIL_ADDRESS'', ''EMAIL''),
     (''PHONE_NUMBER'', ''PHONE''),
     (''US_SSN'', ''SSN''),
     (''IP_ADDRESS'', ''IP''),
     (''_ADDRESS'', []),
     (''_NUMBER'', []),
     (''US_'', [])]"

definition normalizeEntityType :: "string \<Rightarrow> string" where
  "normalizeEntityType entityType =
     foldl (\<lambda>s (pat, rep). replace s pat rep) entityType normalize_rules"

text \<open>The shapes that \<^verbatim>\<open>inferEntityType\<close> tests, in the order of the source.\<close>

definition ssn_shape :: rx where
  "ssn_shape = cats [Bol, digits 3, Opt (Lit ''-''), digits 2, Opt (Lit ''-''), digits 4, Eol]"

definition card_shape :: rx where
  "card_shape =
     cats [Bol, digits 4, Opt (Cls dash_or_space), digits 4, Opt (Cls dash_or_space),
           digits 4, Opt (Cls dash_or_space), digits 4, Eol]"

definition phone_shape :: rx where
  "phone_shape = cats [Bol, Opt (Lit ''+''), Rep 10 None phone_char, Eol]"

definition key_prefix_shape :: rx where
  "key_prefix_shape = cats [Bol, Alt (Lit ''sk-'') (Alt (Lit ''ghp_'') (Lit ''AKIA''))]"

definition ip_shape :: rx where
  "ip_shape =
     cats [Bol, Rep 1 (Some 3) is_digit, Lit ''.'', Rep 1 (Some 3) is_digit, Lit ''.'',
           Rep 1 (Some 3) is_digit, Lit ''.'', Rep 1 (Some 3) is_digit, Eol]"

definition inferEntityType :: "string \<Rightarrow> string" where
  "inferEntityType orig =
     (if includes_str orig ''@'' then ''EMAIL''
      else if matches_rx orig ssn_shape then ''SSN''
      else if matches_rx orig card_shape then ''CREDIT_CARD''
      else if matches_rx orig phone_shape then ''PHONE''
      else if matches_rx orig key_prefix_shape then ''API_KEY''
      else if matches_rx orig ip_shape then ''IP''
      else ''PERSON'')"

section \<open>The reconciler\<close>

text \<open>The two shapes of a replacement token that carry a label: \<^verbatim>\<open>/^<[A-Z_]+>$/\<close> and
  \<^verbatim>\<open>/^[A-Z_]+ \d+$/\<close>; and the global pattern \<^verbatim>\<open>/<([A-Z_]+)>/g\<close> of the tag-driven mode.\<close>

definition tag_shape :: rx where
  "tag_shape = cats [Bol, Lit ''<'', Rep 1 None label_char, Lit ''>'', Eol]"

definition numbered_shape :: rx where
  "numbered_shape = cats [Bol, Rep 1 None label_char, Lit '' '', Rep 1 None is_digit, Eol]"

definition tagPattern :: rx where
  "tagPattern = cats [Lit ''<'', Rep 1 None label_char, Lit ''>'']"

text \<open>\<^verbatim>\<open>s.slice(1, -1)\<close>: the string without its first and its last character.\<close>

definition slice_inner :: "string \<Rightarrow> string" where
  "slice_inner s = slice s 1 (length s - 1)"

text \<open>\<^verbatim>\<open>s.split(" ")[0]\<close>: the part of the string before its first space.\<close>

definition split_first :: "string \<Rightarrow> string" where
  "split_first s = takeWhile (\<lambda>c. c \<noteq> CHR '' '') s"

text \<open>The label of an accepted occurrence (the \<^verbatim>\<open>if\<close> chain inside the scan loop).\<close>

definition entity_type_of :: "string \<Rightarrow> string \<Rightarrow> string" where
  "entity_type_of orig repl =
     (if matches_rx repl tag_shape then normalizeEntityType (slice_inner repl)
      else if matches_rx repl numbered_shape then normalizeEntityType (split_first repl)
      else inferEntityType orig)"

text \<open>
  The state of the map-driven scan: the cursor \<^verbatim>\<open>searchIndex\<close>, the set
  \<^verbatim>\<open>processedPositions\<close> and the array \<^verbatim>\<open>matches\<close>. The key \<^verbatim>\<open>`${index}-${index + length}`\<close>
  of a range is modelled as the pair of its two offsets, which it determines.
\<close>

record scan_state =
  searchIndex :: nat
  processedPositions :: "(nat \<times> nat) set"
  matches :: "PIIMatch list"

text \<open>One iteration of \<^verbatim>\<open>while (searchIndex < cleanText.length)\<close> for the map entry
  \<open>(orig, repl)\<close>; \<^term>\<open>None\<close> when the loop is left (by its condition or by \<^verbatim>\<open>break\<close>).\<close>

definition scan_step :: "string \<Rightarrow> string \<Rightarrow> string \<Rightarrow> scan_state \<Rightarrow> scan_state option" where
  "scan_step cleanText orig repl st =
     (if searchIndex st < length cleanText then
        (case indexOf cleanText repl (searchIndex st) of
           None \<Rightarrow> None
         | Some index \<Rightarrow>
             (let posKey = (index, index + length repl) in
              if posKey \<in> processedPositions st then Some (st\<lparr>searchIndex := index + 1\<rparr>)
              else Some
                \<lparr>searchIndex = index + length repl,
                 processedPositions = insert posKey (processedPositions st),
                 matches = matches st @
                   [\<lparr>type = entity_type_of orig repl,
                     original = orig,
                     replacement = repl,
                     start = index,
                     end' = index + length repl\<rparr>]\<rparr>))
      else None)"

text \<open>The loop itself: iterate the body until it leaves.\<close>

partial_function (option) scan_loop ::
  "string \<Rightarrow> string \<Rightarrow> string \<Rightarrow> scan_state \<Rightarrow> scan_state option" where
  "scan_loop cleanText orig repl st =
     (case scan_step cleanText orig repl st of
        None \<Rightarrow> Some st
      | Some st' \<Rightarrow> scan_loop cleanText orig repl st')"

text \<open>\<^verbatim>\<open>for (const [original, replacement] of Object.entries(syntheticMap))\<close>: the cursor
  starts at 0 for each entry; the claimed ranges and the spans are shared.\<close>

fun scan_entries ::
  "string \<Rightarrow> (string \<times> string) list \<Rightarrow> (nat \<times> nat) set \<Rightarrow> PIIMatch list \<Rightarrow> PIIMatch list option"
  where
  "scan_entries cleanText [] processed acc = Some acc"
| "scan_entries cleanText ((orig, repl) # rest) processed acc =
     (case scan_loop cleanText orig repl
             \<lparr>searchIndex = 0, processedPositions = processed, matches = acc\<rparr> of
        None \<Rightarrow> None
      | Some st \<Rightarrow> scan_entries cleanText rest (processedPositions st) (matches st))"

text \<open>
  The tag-driven loop \<^verbatim>\<open>while ((match = tagPattern.exec(cleanText)) !== null)\<close>. The group
  of the pattern spans the match without its first and last character, so \<^verbatim>\<open>match[1]\<close>
  is that part of \<^verbatim>\<open>match[0]\<close>.
\<close>

partial_function (option) tag_loop ::
  "string \<Rightarrow> nat \<Rightarrow> PIIMatch list \<Rightarrow> PIIMatch list option" where
  "tag_loop cleanText lastIndex acc =
     (case exec tagPattern cleanText lastIndex of
        None \<Rightarrow> Some acc
      | Some (index, e) \<Rightarrow>
          tag_loop cleanText e
            (acc @ [\<lparr>type = normalizeEntityType (slice_inner (slice cleanText index e)),
                     original = ''['' @ slice_inner (slice cleanText index e) @ '']'',
                     replacement = slice cleanText index e,
                     start = index,
                     end' = index + length (slice cleanText index e)\<rparr>]))"

text \<open>\<^verbatim>\<open>uniqueMatches\<close>: sort by start, then keep the element at index 0 and every element
  whose range differs from that of the element just before it in the sorted array.\<close>

definition uniqueMatches :: "PIIMatch list \<Rightarrow> PIIMatch list" where
  "uniqueMatches ms =
     (let array = sort_by_start ms in
      map (\<lambda>index. array ! index)
        (filter (\<lambda>index. index = 0
                   \<or> start (array ! index) \<noteq> start (array ! (index - 1))
                   \<or> end' (array ! index) \<noteq> end' (array ! (index - 1)))
           [0..<length array]))"

text \<open>
  \<^verbatim>\<open>convertBackendResponseToMatches(originalText, cleanText, items, syntheticMap)\<close>. The
  optional map is \<^term>\<open>None\<close> when absent, else the list of its entries in the order of
  \<^verbatim>\<open>Object.entries\<close>.
\<close>

definition convertBackendResponseToMatches ::
  "string \<Rightarrow> string \<Rightarrow> string list \<Rightarrow> (string \<times> string) list option \<Rightarrow> PIIMatch list option"
  where
  "convertBackendResponseToMatches originalText cleanText items syntheticMap =
     map_option uniqueMatches
       (case syntheticMap of
          None \<Rightarrow> tag_loop cleanText 0 []
        | Some entries \<Rightarrow>
            if length entries > 0 then scan_entries cleanText entries {} []
            else tag_loop cleanText 0 [])"

section \<open>The segmenter\<close>

text \<open>
  What \<^verbatim>\<open>RedactedText\<close> renders: the placeholder for an empty text, the text alone when
  there is no span, else the array \<^verbatim>\<open>parts\<close>. A part is a plain piece of the text (key
  \<^verbatim>\<open>text-i\<close>), the highlighted replacement of span \<open>i\<close> (key \<^verbatim>\<open>redacted-i\<close>) or the rest of
  the text (key \<^verbatim>\<open>text-end\<close>). The scan-line overlay shown while \<^verbatim>\<open>isScanning\<close> holds no
  text and is left out.
\<close>

datatype part = TextPart nat string | RedactedPart nat string | TextEnd string

datatype rendered = Placeholder | PlainText string | Parts "part list"

text \<open>\<^verbatim>\<open>matches.forEach((m, i) => ...)\<close> with the variable \<^verbatim>\<open>lastIndex\<close> and the array
  \<^verbatim>\<open>parts\<close>.\<close>

fun forEach_match :: "string \<Rightarrow> PIIMatch list \<Rightarrow> nat \<Rightarrow> nat \<Rightarrow> part list \<Rightarrow> nat \<times> part list" where
  "forEach_match text [] i lastIndex parts = (lastIndex, parts)"
| "forEach_match text (m # ms) i lastIndex parts =
     forEach_match text ms (Suc i) (end' m)
       ((if start m > lastIndex then parts @ [TextPart i (slice text lastIndex (start m))]
         else parts) @ [RedactedPart i (replacement m)])"

definition RedactedText :: "string \<Rightarrow> PIIMatch list \<Rightarrow> rendered" where
  "RedactedText text ms =
     (if text = [] then Placeholder
      else if length ms = 0 then PlainText text
      else (case forEach_match text ms 0 0 [] of
              (lastIndex, parts) \<Rightarrow>
                Parts (if lastIndex < length text
                       then parts @ [TextEnd (slice_from text lastIndex)]
                       else parts)))"

text \<open>What is rendered, as a list of parts: the placeholder shows none of the text, the
  text alone is one part that holds all of it.\<close>

fun rendered_parts :: "rendered \<Rightarrow> part list" where
  "rendered_parts Placeholder = []"
| "rendered_parts (PlainText t) = [TextEnd t]"
| "rendered_parts (Parts ps) = ps"

text \<open>
  Reading the parts against the text from offset \<open>pos\<close> on: a plain part must be a
  non-empty piece of the text that starts at the current offset, and moves the offset past
  it; the part of span \<open>i\<close> must stand at the start of that span, show its replacement, and
  moves the offset to the end of the span. The result is the offset reached, or \<^term>\<open>None\<close>
  when a part does not fit.
\<close>

fun consume :: "string \<Rightarrow> PIIMatch list \<Rightarrow> nat \<Rightarrow> part list \<Rightarrow> nat option" where
  "consume text ms pos [] = Some pos"
| "consume text ms pos (TextPart i t # ps) =
     (if t \<noteq> [] \<and> pos + length t \<le> length text \<and> slice text pos (pos + length t) = t
      then consume text ms (pos + length t) ps else None)"
| "consume text ms pos (RedactedPart i r # ps) =
     (if i < length ms \<and> start (ms ! i) = pos \<and> replacement (ms ! i) = r
      then consume text ms (end' (ms ! i)) ps else None)"
| "consume text ms pos (TextEnd t # ps) =
     (if t \<noteq> [] \<and> pos + length t \<le> length text \<and> slice text pos (pos + length t) = t
      then consume text ms (pos + length t) ps else None)"

text \<open>The spans that the parts highlight, in order.\<close>

fun redacted_indices :: "part list \<Rightarrow> nat list" where
  "redacted_indices [] = []"
| "redacted_indices (RedactedPart i r # ps) = i # redacted_indices ps"
| "redacted_indices (p # ps) = redacted_indices ps"

text \<open>The precondition of the segmenter: every span lies within the text, and the spans
  are sorted by start and pairwise non-overlapping.\<close>

definition segmenter_pre :: "string \<Rightarrow> PIIMatch list \<Rightarrow> bool" where
  "segmenter_pre text ms =
     (list_all (\<lambda>m. start m \<le> end' m \<and> end' m \<le> length text) ms
      \<and> sorted (map start ms)
      \<and> sorted_wrt (\<lambda>a b. end' a \<le> start b) ms)"

section \<open>Orchestration\<close>

text \<open>
  The state of the \<^verbatim>\<open>ShieldChat\<close> component (its \<^verbatim>\<open>useState\<close> cells) and the state
  updates that \<^verbatim>\<open>handleSanitize\<close> makes on the path where the sanitize call succeeds.
  Each group of \<^verbatim>\<open>set...\<close> calls is a function from state to state. The two callbacks of
  the chat call write \<^verbatim>\<open>aiResponse\<close>, \<^verbatim>\<open>isLoadingAI\<close> and \<^verbatim>\<open>aiError\<close> only and are left
  out. The clock (\<^verbatim>\<open>Date.now()\<close>) is a parameter.
\<close>

datatype AuditStatus = Idle | Running | Passed | Failed | Rate_limited

datatype SanitizeMode = Strict | Synthetic | Mask

record AuditResult =
  safety_score :: int
  usability_score :: int
  critique :: string

record SanitizeResponse =
  clean_text :: string
  items :: "string list"
  processing_time_ms :: int
  synthetic_map :: "(string \<times> string) list option"

record HistoryEntry =
  entry_id :: int
  entry_input :: string
  entry_matches :: "PIIMatch list"
  entry_timestamp :: int

record chat_state =
  input :: string
  isScanning :: bool
  currentMatches :: "PIIMatch list"
  sanitizedText :: string
  history :: "HistoryEntry list"
  activeStep :: string
  apiError :: "string option"
  auditResult :: "AuditResult option"
  auditStatus :: AuditStatus
  processingTime :: "int option"
  sanitizeMode :: SanitizeMode
  aiResponse :: string
  isLoadingAI :: bool
  aiError :: "string option"

text \<open>The updates before the sanitize call is awaited.\<close>

definition sanitize_started :: "chat_state \<Rightarrow> chat_state" where
  "sanitize_started st =
     st\<lparr>activeStep := ''sanitize'', isScanning := True, apiError := None,
        auditResult := None, auditStatus := Idle, processingTime := None\<rparr>"

text \<open>The updates after the sanitize call has answered, up to the point where the audit
  call is awaited. The reconciler is called on the input and the response.\<close>

definition sanitize_succeeded :: "SanitizeResponse \<Rightarrow> int \<Rightarrow> chat_state \<Rightarrow> chat_state option" where
  "sanitize_succeeded response now st =
     (case convertBackendResponseToMatches (input st) (clean_text response) (items response)
             (synthetic_map response) of
        None \<Rightarrow> None
      | Some ms \<Rightarrow>
          Some (st\<lparr>sanitizedText := clean_text response,
                  processingTime := Some (processing_time_ms response),
                  currentMatches := ms,
                  isScanning := False,
                  activeStep := ''verify'',
                  history := \<lparr>entry_id = now, entry_input = input st, entry_matches = ms,
                              entry_timestamp = now\<rparr> # history st,
                  isLoadingAI := True,
                  aiError := None,
                  auditStatus := Running\<rparr>))"

text \<open>The outcome of the audit call: its result, or the message of the error caught.\<close>

datatype audit_outcome = AuditOk AuditResult | AuditError string

definition audit_settled :: "audit_outcome \<Rightarrow> chat_state \<Rightarrow> chat_state" where
  "audit_settled outcome st =
     (case outcome of
        AuditOk audit \<Rightarrow> st\<lparr>auditResult := Some audit, auditStatus := Passed\<rparr>
      | AuditError msg \<Rightarrow>
          (let isRateLimited = (includes_str msg ''429'' \<or> includes_str msg ''rate''
                                \<or> includes_str msg ''limit'' \<or> includes_str msg ''500'')
           in st\<lparr>auditStatus := (if isRateLimited then Rate_limited else Failed),
                 auditResult := None\<rparr>))"

text \<open>\<^verbatim>\<open>!input.trim()\<close>: the input is empty or consists of white space only.\<close>

definition blank :: "string \<Rightarrow> bool" where
  "blank s = list_all is_space s"

text \<open>\<^verbatim>\<open>handleSanitize\<close> on the path where the sanitize call answers with \<open>response\<close> and
  the audit call settles with \<open>outcome\<close>.\<close>

definition handleSanitize :: "SanitizeResponse \<Rightarrow> int \<Rightarrow> audit_outcome \<Rightarrow> chat_state \<Rightarrow> chat_state option" where
  "handleSanitize response now outcome st =
     (if blank (input st) then Some st
      else map_option (audit_settled outcome)
             (sanitize_succeeded response now (sanitize_started st)))"

section \<open>Notions used in the statements\<close>

text \<open>The range of a span.\<close>

definition span_range :: "PIIMatch \<Rightarrow> nat \<times> nat" where
  "span_range m = (start m, end' m)"

text \<open>
  A bracketed tag occurs at offset \<open>j\<close> of \<open>s\<close> with label \<open>lbl\<close> when the text from \<open>j\<close> on
  reads \<^verbatim>\<open><\<close>, then the non-empty run \<open>lbl\<close> of the characters \<^verbatim>\<open>A-Z\<close> and \<^verbatim>\<open>_\<close>, then \<^verbatim>\<open>>\<close>.
\<close>

definition tag_at :: "string \<Rightarrow> nat \<Rightarrow> string option" where
  "tag_at s j =
     (let lbl = takeWhile label_char (drop (Suc j) s)
      in if lbl \<noteq> [] \<and> prefix (''<'' @ lbl @ ''>'') (drop j s) then Some lbl else None)"

text \<open>All tag occurrences from offset \<open>i\<close> on, by increasing offset.\<close>

definition tags_from :: "string \<Rightarrow> nat \<Rightarrow> (nat \<times> string) list" where
  "tags_from s i = List.map_filter (\<lambda>j. map_option (Pair j) (tag_at s j)) [i..<length s]"

text \<open>The span of the tag-driven mode for the occurrence of the label \<open>snd t\<close> at offset
  \<open>fst t\<close>.\<close>

definition tag_span :: "nat \<times> string \<Rightarrow> PIIMatch" where
  "tag_span t =
     \<lparr>type = normalizeEntityType (snd t),
      original = ''['' @ snd t @ '']'',
      replacement = ''<'' @ snd t @ ''>'',
      start = fst t,
      end' = fst t + length (snd t) + 2\<rparr>"

text \<open>The quantity that decreases with every iteration of the map-driven scan: twice
  the distance of the cursor from the end of the text, plus one while the occurrence
  that the cursor finds next is still unclaimed.\<close>

definition scan_measure :: "string \<Rightarrow> string \<Rightarrow> scan_state \<Rightarrow> nat" where
  "scan_measure c repl st =
     2 * (length c - searchIndex st)
     + (case indexOf c repl (searchIndex st) of
          None \<Rightarrow> 0
        | Some index \<Rightarrow> if (index, index + length repl) \<in> processedPositions st then 0 else 1)"

text \<open>The invariant of the map-driven scan: the ranges of the spans pushed so far are
  pairwise distinct and all claimed, and every span is as wide as its token, lies within
  the text and comes from an entry of the map.\<close>

definition modeA_inv ::
  "string \<Rightarrow> (string \<times> string) list \<Rightarrow> (nat \<times> nat) set \<Rightarrow> PIIMatch list \<Rightarrow> bool" where
  "modeA_inv c entries P ms \<longleftrightarrow>
     distinct (map span_range ms) \<and> set (map span_range ms) \<subseteq> P
     \<and> (\<forall>m\<in>set ms. end' m = start m + length (replacement m) \<and> end' m \<le> length c
            \<and> (original m, replacement m) \<in> set entries)"

text \<open>The initial values of the state cells.\<close>

definition initial_state :: chat_state where
  "initial_state =
     \<lparr>input = [], isScanning = False, currentMatches = [], sanitizedText = [],
      history = [], activeStep = ''sanitize'', apiError = None, auditResult = None,
      auditStatus = Idle, processingTime = None, sanitizeMode = Synthetic,
      aiResponse = [], isLoadingAI = False, aiError = None\<rparr>"

text \<open>
  The strings that an expression without assertions denotes, in the usual sense: the
  matcher is compared with it below.
\<close>

fun lang :: "rx \<Rightarrow> string set" where
  "lang (Cls p) = {[c] | c. p c}"
| "lang (Lit w) = {w}"
| "lang (Cat r1 r2) = {u @ v | u v. u \<in> lang r1 \<and> v \<in> lang r2}"
| "lang (Alt r1 r2) = lang r1 \<union> lang r2"
| "lang (Opt r) = insert [] (lang r)"
| "lang (Rep mn mx p) =
     {w. list_all p w \<and> mn \<le> length w \<and> (case mx of None \<Rightarrow> True | Some m \<Rightarrow> length w \<le> m)}"
| "lang WordB = {}"
| "lang Bol = {}"
| "lang Eol = {}"

text \<open>An expression without assertions.\<close>

fun plain :: "rx \<Rightarrow> bool" where
  "plain (Cat r1 r2) = (plain r1 \<and> plain r2)"
| "plain (Alt r1 r2) = (plain r1 \<and> plain r2)"
| "plain (Opt r) = plain r"
| "plain WordB = False"
| "plain Bol = False"
| "plain Eol = False"
| "plain r = True"

text \<open>The strings made of one piece from each set of a list, in order; the strings of
  between \<open>lo\<close> and \<open>hi\<close> digits; the empty string and the single characters of a class.\<close>

definition seq :: "string set list \<Rightarrow> string set" where
  "seq As = foldr (\<lambda>A B. {u @ v | u v. u \<in> A \<and> v \<in> B}) As {[]}"

definition digit_strings :: "nat \<Rightarrow> nat \<Rightarrow> string set" where
  "digit_strings lo hi = {w. list_all is_digit w \<and> lo \<le> length w \<and> length w \<le> hi}"

definition opt_char :: "(char \<Rightarrow> bool) \<Rightarrow> string set" where
  "opt_char p = insert [] {[c] | c. p c}"

section \<open>Auxiliary facts\<close>

text \<open>The equations of the loops, for evaluation at concrete inputs.\<close>

declare tag_loop.simps[code] scan_loop.simps[code] detect_loop.simps[code]

subsection \<open>Sorting and the removal of repeats\<close>

lemma map_nth_filter_upt: "map (\<lambda>i. xs ! i) (filter P [0..<length xs]) = nths xs {i. P i}"
proof (induction xs arbitrary: P rule: rev_induct)
  case Nil
  then show ?case by simp
next
  case (snoc x xs)
  have "map (\<lambda>i. (xs @ [x]) ! i) (filter P [0..<length xs]) = map (\<lambda>i. xs ! i) (filter P [0..<length xs])"
    by (rule map_cong) (auto simp: nth_append)
  then show ?case using snoc[of P]
    by (simp add: nths_append)
qed

lemma uniqueMatches_nths:
  "\<exists>I. uniqueMatches ms = nths (sort_key start ms) I"
  unfolding uniqueMatches_def sort_by_start_def Let_def
  by (rule exI) (rule map_nth_filter_upt)

lemma set_uniqueMatches: "set (uniqueMatches ms) \<subseteq> set ms"
  using uniqueMatches_nths[of ms] set_nths_subset by fastforce

lemma sorted_uniqueMatches: "sorted (map start (uniqueMatches ms))"
proof -
  obtain I where "uniqueMatches ms = nths (sort_key start ms) I"
    using uniqueMatches_nths by blast
  then have "map start (uniqueMatches ms) = nths (map start (sort_key start ms)) I"
    by (simp add: nths_map)
  then show ?thesis by (simp add: sorted_nths)
qed

lemma distinct_uniqueMatches:
  assumes "distinct (map f ms)"
  shows "distinct (map f (uniqueMatches ms))"
proof -
  obtain I where I: "uniqueMatches ms = nths (sort_key start ms) I"
    using uniqueMatches_nths by blast
  have "distinct (map f (sort_key start ms))"
    using assms by (simp add: distinct_map)
  then show ?thesis unfolding I by (simp flip: nths_map)
qed


subsection \<open>Matches of a pattern\<close>

lemma ends_bounds:
  "i \<le> length s \<Longrightarrow> e \<in> set (ends r s i) \<Longrightarrow> i + minlen r \<le> e \<and> e \<le> length s"
proof (induction r arbitrary: i e)
  case (Cls p)
  then show ?case by (auto split: if_splits)
next
  case (Lit w)
  then have p: "prefix w (drop i s)" and e: "e = i + length w" by (auto split: if_splits)
  from p have "length w \<le> length (drop i s)" by (rule prefix_length_le)
  with e Lit.prems(1) show ?case by simp
next
  case (Cat r1 r2)
  from Cat.prems(2) obtain k where k: "k \<in> set (ends r1 s i)" and e: "e \<in> set (ends r2 s k)"
    by auto
  from Cat.IH(1)[OF Cat.prems(1) k] have k1: "i + minlen r1 \<le> k" and k2: "k \<le> length s" by auto
  from Cat.IH(2)[OF k2 e] k1 show ?case by simp
next
  case (Alt r1 r2)
  from Alt.prems(2) consider "e \<in> set (ends r1 s i)" | "e \<in> set (ends r2 s i)" by auto
  then show ?case
  proof cases
    case 1
    from Alt.IH(1)[OF Alt.prems(1) 1] show ?thesis by (simp add: min_def)
  next
    case 2
    from Alt.IH(2)[OF Alt.prems(1) 2] show ?thesis by (simp add: min_def)
  qed
next
  case (Opt r)
  from Opt.prems(2) consider "e = i" | "e \<in> set (ends r s i)" by auto
  then show ?case
  proof cases
    case 1
    with Opt.prems(1) show ?thesis by simp
  next
    case 2
    from Opt.IH[OF Opt.prems(1) 2] show ?thesis by simp
  qed
next
  case (Rep mn mx p)
  have "run p s i \<le> length s - i"
    unfolding run_def using length_takeWhile_le[of p "drop i s"] by simp
  with Rep show ?case
    by (auto simp: Let_def split: if_splits option.splits)
next
  case WordB
  then show ?case by (auto split: if_splits)
next
  case Bol
  then show ?case by (auto split: if_splits)
next
  case Eol
  then show ?case by (auto split: if_splits)
qed

lemma upt_eq_append_Cons:
  assumes "[i..<n] = us @ j # vs"
  shows "us = [i..<j]" and "i \<le> j" and "j < n"
proof -
  have l: "length us < length [i..<n]" unfolding assms by simp
  have "[i..<n] ! length us = j" unfolding assms by simp
  with l have j: "j = i + length us" by (simp del: upt_Suc)
  show "i \<le> j" using j by simp
  show "j < n" using j l by simp
  have "us = take (length us) [i..<n]" unfolding assms by simp
  also have "\<dots> = [i..<j]" using j l by (simp add: take_upt del: upt_Suc)
  finally show "us = [i..<j]" .
qed

lemma exec_SomeD:
  assumes "exec r s i = Some (j, e)"
  shows "i \<le> j" and "j \<le> length s" and "e \<in> set (ends r s j)"
    and "e = hd (ends r s j)" and "\<forall>k. i \<le> k \<and> k < j \<longrightarrow> ends r s k = []"
proof -
  from assms obtain js where f: "filter (\<lambda>j. ends r s j \<noteq> []) [i..<Suc (length s)] = j # js"
    and e: "e = hd (ends r s j)"
    by (auto simp: exec_def simp del: upt_Suc split: list.splits)
  from f obtain us vs where uv: "[i..<Suc (length s)] = us @ j # vs"
    and us: "\<forall>u\<in>set us. \<not> ends r s u \<noteq> []" and j: "ends r s j \<noteq> []"
    unfolding filter_eq_Cons_iff by blast
  note u = upt_eq_append_Cons[OF uv]
  show "i \<le> j" by (rule u(2))
  show "j \<le> length s" using u(3) by simp
  show "e = hd (ends r s j)" by (rule e)
  show "e \<in> set (ends r s j)" using e j by simp
  show "\<forall>k. i \<le> k \<and> k < j \<longrightarrow> ends r s k = []" using us unfolding u(1) by auto
qed

lemma exec_NoneD:
  assumes "exec r s i = None" and "i \<le> k" and "k \<le> length s"
  shows "ends r s k = []"
proof -
  from assms(1) have "filter (\<lambda>j. ends r s j \<noteq> []) [i..<Suc (length s)] = []"
    by (auto simp: exec_def split: list.splits)
  then have "\<forall>j\<in>set [i..<Suc (length s)]. ends r s j = []"
    by (simp add: filter_empty_conv)
  with assms(2,3) show ?thesis by (cases "k = length s") auto
qed

lemma exec_bounds:
  assumes "exec r s i = Some (j, e)"
  shows "j + minlen r \<le> e" and "e \<le> length s"
proof -
  have "j + minlen r \<le> e \<and> e \<le> length s"
    by (rule ends_bounds[OF exec_SomeD(2)[OF assms] exec_SomeD(3)[OF assms]])
  then show "j + minlen r \<le> e" and "e \<le> length s" by blast+
qed

subsection \<open>The detector returns\<close>

lemma length_slice: "b \<le> length s \<Longrightarrow> length (slice s a b) = b - a"
  by (simp add: slice_def)

lemma detect_loop_total:
  assumes pos: "0 < minlen (fst (snd pattern))"
  shows "\<exists>ms. detect_loop pattern text i acc = Some (acc @ ms)
           \<and> (\<forall>m\<in>set ms. start m < end' m \<and> end' m \<le> length text)"
proof (induction "length text - i" arbitrary: i acc rule: less_induct)
  case less
  show ?case
  proof (cases "exec (fst (snd pattern)) text i")
    case None
    then have "detect_loop pattern text i acc = Some (acc @ [])"
      by (subst detect_loop.simps) simp
    then show ?thesis by fastforce
  next
    case (Some a)
    obtain j e where a: "a = (j, e)" by (cases a)
    note ex = Some[unfolded a]
    have ij: "i \<le> j" by (rule exec_SomeD(1)[OF ex])
    have je: "j < e" using exec_bounds(1)[OF ex] pos by simp
    have el: "e \<le> length text" by (rule exec_bounds(2)[OF ex])
    define m where "m = \<lparr>type = fst pattern, original = slice text j e,
      replacement = snd (snd pattern), start = j, end' = j + length (slice text j e)\<rparr>"
    have m: "start m < end' m \<and> end' m \<le> length text"
      using je el by (simp add: m_def length_slice)
    have "length text - e < length text - i" using ij je el by simp
    from less[OF this, of "acc @ [m]"] obtain ms where
      ms: "detect_loop pattern text e (acc @ [m]) = Some ((acc @ [m]) @ ms)"
      and all: "\<forall>m\<in>set ms. start m < end' m \<and> end' m \<le> length text" by blast
    have "detect_loop pattern text i acc = Some (acc @ (m # ms))"
      by (subst detect_loop.simps) (simp add: ex ms m_def[symmetric])
    moreover have "\<forall>x\<in>set (m # ms). start x < end' x \<and> end' x \<le> length text"
      using m all by simp
    ultimately show ?thesis by blast
  qed
qed

lemma detect_patterns_total:
  assumes "\<forall>p\<in>set ps. 0 < minlen (fst (snd p))"
  shows "\<exists>ms. detect_patterns ps text acc = Some (acc @ ms)
           \<and> (\<forall>m\<in>set ms. start m < end' m \<and> end' m \<le> length text)"
  using assms
proof (induction ps arbitrary: acc)
  case Nil
  have "detect_patterns [] text acc = Some (acc @ [])" by simp
  then show ?case by fastforce
next
  case (Cons p ps)
  from Cons.prems have "0 < minlen (fst (snd p))" by simp
  from detect_loop_total[OF this, of "text" 0 acc] obtain ms1 where
    1: "detect_loop p text 0 acc = Some (acc @ ms1)"
    and a1: "\<forall>m\<in>set ms1. start m < end' m \<and> end' m \<le> length text" by blast
  from Cons.prems have "\<forall>p\<in>set ps. 0 < minlen (fst (snd p))" by simp
  from Cons.IH[OF this, of "acc @ ms1"] obtain ms2 where
    2: "detect_patterns ps text (acc @ ms1) = Some ((acc @ ms1) @ ms2)"
    and a2: "\<forall>m\<in>set ms2. start m < end' m \<and> end' m \<le> length text" by blast
  have "detect_patterns (p # ps) text acc = Some (acc @ (ms1 @ ms2))"
    by (simp add: 1 2)
  moreover have "\<forall>m\<in>set (ms1 @ ms2). start m < end' m \<and> end' m \<le> length text"
    using a1 a2 by auto
  ultimately show ?case by blast
qed

lemma PII_PATTERNS_consume: "\<forall>p\<in>set PII_PATTERNS. 0 < minlen (fst (snd p))"
  by (simp add: PII_PATTERNS_def cats_def digits_def)

lemma detectPII_total:
  "\<exists>ms. detectPII text = Some ms \<and> sorted (map start ms)
      \<and> (\<forall>m\<in>set ms. start m < end' m \<and> end' m \<le> length text)"
proof -
  from detect_patterns_total[OF PII_PATTERNS_consume, of "text" "[]"] obtain ms where
    1: "detect_patterns PII_PATTERNS text [] = Some ms"
    and a: "\<forall>m\<in>set ms. start m < end' m \<and> end' m \<le> length text" by auto
  have "detectPII text = Some (sort_key start ms)"
    by (simp add: detectPII_def 1 sort_by_start_def)
  then show ?thesis using a by simp
qed

subsection \<open>The map-driven scan returns\<close>

lemma indexOf_aux_SomeD:
  "indexOf_aux pat xs k = Some j \<Longrightarrow> k \<le> j \<and> j + length pat \<le> k + length xs"
proof (induction xs arbitrary: k)
  case Nil
  then show ?case by (simp split: if_splits)
next
  case (Cons x xs)
  show ?case
  proof (cases "prefix pat (x # xs)")
    case True
    then have "length pat \<le> length (x # xs)" by (rule prefix_length_le)
    with True Cons.prems show ?thesis by simp
  next
    case False
    with Cons.prems have "indexOf_aux pat xs (Suc k) = Some j" by simp
    from Cons.IH[OF this] show ?thesis by simp
  qed
qed

lemma indexOf_aux_empty: "indexOf_aux [] xs k = Some k"
  by (cases xs) simp_all

lemma indexOf_SomeD:
  assumes "indexOf s pat pos = Some j" and "pos \<le> length s"
  shows "pos \<le> j" and "j + length pat \<le> length s"
proof -
  from assms have "indexOf_aux pat (drop pos s) pos = Some j"
    by (simp add: indexOf_def min_def)
  from indexOf_aux_SomeD[OF this] assms(2)
  show "pos \<le> j" and "j + length pat \<le> length s" by simp_all
qed

lemma indexOf_empty: "pos \<le> length s \<Longrightarrow> indexOf s [] pos = Some pos"
  by (simp add: indexOf_def min_def indexOf_aux_empty)

lemma scan_step_cases:
  assumes "scan_step c orig repl st = Some st'"
  obtains (claimed) index where "searchIndex st < length c"
      and "indexOf c repl (searchIndex st) = Some index"
      and "(index, index + length repl) \<in> processedPositions st"
      and "st' = st\<lparr>searchIndex := index + 1\<rparr>"
    | (accepted) index where "searchIndex st < length c"
      and "indexOf c repl (searchIndex st) = Some index"
      and "(index, index + length repl) \<notin> processedPositions st"
      and "st' = \<lparr>searchIndex = index + length repl,
                 processedPositions = insert (index, index + length repl) (processedPositions st),
                 matches = matches st @
                   [\<lparr>type = entity_type_of orig repl, original = orig, replacement = repl,
                     start = index, end' = index + length repl\<rparr>]\<rparr>"
  using assms unfolding scan_step_def Let_def
  by (auto split: if_splits option.splits)

lemma scan_step_decreases:
  assumes "scan_step c orig repl st = Some st'"
  shows "scan_measure c repl st' < scan_measure c repl st"
  using assms
proof (cases rule: scan_step_cases)
  case (claimed index)
  have "searchIndex st \<le> index" using indexOf_SomeD(1)[OF claimed(2)] claimed(1) by simp
  then have "2 * (length c - searchIndex st') + 1 < 2 * (length c - searchIndex st)"
    using claimed(1) by (simp add: claimed(4))
  moreover have "scan_measure c repl st' \<le> 2 * (length c - searchIndex st') + 1"
    unfolding scan_measure_def by (simp split: option.splits)
  moreover have "2 * (length c - searchIndex st) \<le> scan_measure c repl st"
    unfolding scan_measure_def by simp
  ultimately show ?thesis by linarith
next
  case (accepted index)
  have le: "searchIndex st \<le> index" using indexOf_SomeD(1)[OF accepted(2)] accepted(1) by simp
  show ?thesis
  proof (cases "index + length repl = searchIndex st")
    case True
    have "index = searchIndex st \<and> length repl = 0" using True le by linarith
    then have eq: "index = searchIndex st" "repl = []" by simp_all
    have "scan_measure c repl st = 2 * (length c - searchIndex st) + 1"
      unfolding scan_measure_def using accepted(2,3) by simp
    moreover have "scan_measure c repl st' = 2 * (length c - searchIndex st)"
      unfolding scan_measure_def using accepted(2) eq by (simp add: accepted(4))
    ultimately show ?thesis by simp
  next
    case False
    then have "searchIndex st < searchIndex st'" using le by (simp add: accepted(4))
    then have "2 * (length c - searchIndex st') + 1 < 2 * (length c - searchIndex st)"
      using accepted(1) by simp
    moreover have "scan_measure c repl st' \<le> 2 * (length c - searchIndex st') + 1"
      unfolding scan_measure_def by (simp split: option.splits)
    moreover have "2 * (length c - searchIndex st) \<le> scan_measure c repl st"
      unfolding scan_measure_def by simp
    ultimately show ?thesis by linarith
  qed
qed

lemma scan_loop_rule:
  assumes "I st"
    and "\<And>st st'. I st \<Longrightarrow> scan_step c orig repl st = Some st' \<Longrightarrow> I st'"
  shows "\<exists>st'. scan_loop c orig repl st = Some st' \<and> I st' \<and> scan_step c orig repl st' = None"
  using assms(1)
proof (induction "scan_measure c repl st" arbitrary: st rule: less_induct)
  case less
  show ?case
  proof (cases "scan_step c orig repl st")
    case None
    then have "scan_loop c orig repl st = Some st" by (subst scan_loop.simps) simp
    with None less.prems show ?thesis by simp
  next
    case (Some st1)
    have "scan_measure c repl st1 < scan_measure c repl st" by (rule scan_step_decreases[OF Some])
    moreover have "I st1" by (rule assms(2)[OF less.prems Some])
    ultimately obtain st' where "scan_loop c orig repl st1 = Some st'" and "I st'"
      and "scan_step c orig repl st' = None" using less.hyps by blast
    moreover have "scan_loop c orig repl st = scan_loop c orig repl st1"
      by (subst scan_loop.simps) (simp add: Some)
    ultimately show ?thesis by simp
  qed
qed

lemma scan_entries_rule:
  assumes "I processed acc"
    and "\<And>orig repl st st'. (orig, repl) \<in> set entries \<Longrightarrow>
           I (processedPositions st) (matches st) \<Longrightarrow>
           scan_step c orig repl st = Some st' \<Longrightarrow>
           I (processedPositions st') (matches st')"
  shows "\<exists>ms P. scan_entries c entries processed acc = Some ms \<and> I P ms"
  using assms
proof (induction entries arbitrary: processed acc)
  case Nil
  then show ?case by auto
next
  case (Cons entry entries)
  obtain orig repl where entry: "entry = (orig, repl)" by (cases entry)
  let ?st0 = "\<lparr>searchIndex = 0, processedPositions = processed, matches = acc\<rparr>"
  have "\<exists>st'. scan_loop c orig repl ?st0 = Some st'
          \<and> I (processedPositions st') (matches st') \<and> scan_step c orig repl st' = None"
  proof (rule scan_loop_rule[where I = "\<lambda>st. I (processedPositions st) (matches st)"])
    show "I (processedPositions ?st0) (matches ?st0)" using Cons.prems(1) by simp
  next
    fix st st'
    assume "I (processedPositions st) (matches st)" and "scan_step c orig repl st = Some st'"
    then show "I (processedPositions st') (matches st')"
      using Cons.prems(2)[of orig repl st st'] entry by simp
  qed
  then obtain st' where 1: "scan_loop c orig repl ?st0 = Some st'"
    and 2: "I (processedPositions st') (matches st')" by blast
  have "\<exists>ms P. scan_entries c entries (processedPositions st') (matches st') = Some ms \<and> I P ms"
  proof (rule Cons.IH[OF 2])
    fix orig repl st st'
    assume "(orig, repl) \<in> set entries" and "I (processedPositions st) (matches st)"
      and "scan_step c orig repl st = Some st'"
    then show "I (processedPositions st') (matches st')"
      using Cons.prems(2)[of orig repl st st'] by simp
  qed
  then show ?case by (simp add: entry 1)
qed

subsection \<open>The tag-driven scan finds every tag\<close>

lemma prefix_drop_Cons:
  "prefix (a # w) (drop j s) \<longleftrightarrow> j < length s \<and> s ! j = a \<and> prefix w (drop (Suc j) s)"
proof (cases "j < length s")
  case True
  then have "drop j s = s ! j # drop (Suc j) s" by (simp add: Cons_nth_drop_Suc)
  with True show ?thesis by auto
next
  case False
  then show ?thesis by simp
qed

lemma run_nth: "x < run p s i \<Longrightarrow> i + x < length s \<and> p (s ! (i + x))"
proof -
  assume x: "x < run p s i"
  let ?t = "takeWhile p (drop i s)"
  have l: "length ?t \<le> length (drop i s)" by (rule length_takeWhile_le)
  from x have x': "x < length ?t" by (simp add: run_def)
  then have "?t ! x \<in> set ?t" by simp
  then have "p (?t ! x)" by (rule set_takeWhileD[THEN conjunct2])
  moreover have "?t ! x = drop i s ! x" using x' by (rule takeWhile_nth)
  moreover have "i + x < length s" using x' l by simp
  ultimately show ?thesis by simp
qed

lemma run_stop: "i + run p s i < length s \<Longrightarrow> \<not> p (s ! (i + run p s i))"
proof -
  assume a: "i + run p s i < length s"
  let ?t = "takeWhile p (drop i s)"
  from a have "length ?t < length (drop i s)" by (simp add: run_def)
  then have "\<not> p (drop i s ! length ?t)" by (rule nth_length_takeWhile)
  with a show ?thesis by (simp add: run_def)
qed

lemma takeWhile_prefix_drop:
  "prefix (takeWhile p (drop i s) @ w) (drop i s) \<longleftrightarrow> prefix w (drop (i + run p s i) s)"
proof -
  have "drop i s = takeWhile p (drop i s) @ dropWhile p (drop i s)" by simp
  moreover have "dropWhile p (drop i s) = drop (run p s i) (drop i s)"
    by (simp add: run_def dropWhile_eq_drop)
  ultimately have "drop i s = takeWhile p (drop i s) @ drop (i + run p s i) s"
    by (simp add: add.commute)
  then show ?thesis by (metis same_prefix_prefix)
qed

lemma tag_at_iff:
  "tag_at s j = Some lbl \<longleftrightarrow>
     lbl = takeWhile label_char (drop (Suc j) s) \<and> 0 < run label_char s (Suc j)
     \<and> j < length s \<and> s ! j = CHR ''<''
     \<and> Suc j + run label_char s (Suc j) < length s
     \<and> s ! (Suc j + run label_char s (Suc j)) = CHR ''>''"
proof -
  let ?l = "takeWhile label_char (drop (Suc j) s)"
  have "prefix (''<'' @ ?l @ ''>'') (drop j s) \<longleftrightarrow>
        j < length s \<and> s ! j = CHR ''<'' \<and> prefix (?l @ ''>'') (drop (Suc j) s)"
    using prefix_drop_Cons[of "CHR ''<''" "?l @ ''>''" j s] by simp
  also have "prefix (?l @ ''>'') (drop (Suc j) s) \<longleftrightarrow>
        prefix ''>'' (drop (Suc j + run label_char s (Suc j)) s)"
    by (rule takeWhile_prefix_drop)
  also have "\<dots> \<longleftrightarrow> Suc j + run label_char s (Suc j) < length s
        \<and> s ! (Suc j + run label_char s (Suc j)) = CHR ''>''"
    using prefix_drop_Cons[of "CHR ''>''" "[]"] by simp
  finally have p: "prefix (''<'' @ ?l @ ''>'') (drop j s) \<longleftrightarrow>
        j < length s \<and> s ! j = CHR ''<'' \<and> Suc j + run label_char s (Suc j) < length s
        \<and> s ! (Suc j + run label_char s (Suc j)) = CHR ''>''" .
  have "?l \<noteq> [] \<longleftrightarrow> 0 < run label_char s (Suc j)" by (simp add: run_def)
  with p show ?thesis unfolding tag_at_def Let_def by auto
qed


lemma ends_single_char:
  "ends (Cat (Lit [c]) (Lit [])) s e = (if e < length s \<and> s ! e = c then [Suc e] else [])"
proof -
  have "prefix [c] (drop e s) \<longleftrightarrow> e < length s \<and> s ! e = c"
    using prefix_drop_Cons[of c "[]" e s] by simp
  then show ?thesis by auto
qed

lemma label_char_not_gt: "label_char c \<Longrightarrow> c \<noteq> CHR ''>''"
  by (auto simp: label_char_def is_upper_def)

lemma label_char_not_lt: "label_char c \<Longrightarrow> c \<noteq> CHR ''<''"
  by (auto simp: label_char_def is_upper_def)

lemma ends_label_run:
  "ends (Cat (Rep 1 None label_char) (Cat (Lit ''>'') (Lit []))) s i =
     (if 0 < run label_char s i \<and> i + run label_char s i < length s
         \<and> s ! (i + run label_char s i) = CHR ''>''
      then [Suc (i + run label_char s i)] else [])"
proof (cases "0 < run label_char s i")
  case False
  then show ?thesis by simp
next
  case True
  define k where "k = run label_char s i"
  define F where "F = ends (Cat (Lit ''>'') (Lit [])) s"
  have F: "F e = (if e < length s \<and> s ! e = CHR ''>'' then [Suc e] else [])" for e
    unfolding F_def by (rule ends_single_char)
  have k: "0 < k" using True by (simp add: k_def)
  then have up: "rev [Suc 0..<Suc k] = k # rev [Suc 0..<k]" by simp
  have "ends (Rep 1 None label_char) s i = (i + k) # map (\<lambda>j. i + j) (rev [1..<k])"
    using k by (simp add: k_def[symmetric] up del: upt_Suc)
  then have "ends (Cat (Rep 1 None label_char) (Cat (Lit ''>'') (Lit []))) s i
      = F (i + k) @ concat (map F (map (\<lambda>j. i + j) (rev [1..<k])))"
    by (simp add: F_def)
  moreover have "concat (map F (map (\<lambda>j. i + j) (rev [1..<k]))) = []"
  proof -
    have "F (i + x) = []" if "x < k" for x
    proof -
      from that have "label_char (s ! (i + x))" using run_nth[of x label_char s i]
        by (simp add: k_def)
      then have "s ! (i + x) \<noteq> CHR ''>''" by (rule label_char_not_gt)
      then show ?thesis by (simp add: F)
    qed
    then show ?thesis by auto
  qed
  ultimately show ?thesis using True by (simp add: F k_def)
qed

lemma ends_tagPattern:
  "ends tagPattern s j =
     (case tag_at s j of None \<Rightarrow> [] | Some lbl \<Rightarrow> [j + length lbl + 2])"
proof -
  have lt: "prefix ''<'' (drop j s) \<longleftrightarrow> j < length s \<and> s ! j = CHR ''<''"
    using prefix_drop_Cons[of "CHR ''<''" "[]" j s] by simp
  have e: "ends tagPattern s j =
      (if j < length s \<and> s ! j = CHR ''<''
       then ends (Cat (Rep 1 None label_char) (Cat (Lit ''>'') (Lit []))) s (Suc j) else [])"
    unfolding tagPattern_def cats_def using lt by auto
  show ?thesis
  proof (cases "tag_at s j")
    case None
    then have "\<not> (0 < run label_char s (Suc j) \<and> j < length s \<and> s ! j = CHR ''<''
         \<and> Suc j + run label_char s (Suc j) < length s
         \<and> s ! (Suc j + run label_char s (Suc j)) = CHR ''>'')"
      using tag_at_iff[of s j "takeWhile label_char (drop (Suc j) s)"] by auto
    then show ?thesis unfolding e ends_label_run using None by auto
  next
    case (Some lbl)
    then have t: "lbl = takeWhile label_char (drop (Suc j) s)" "0 < run label_char s (Suc j)"
      "j < length s" "s ! j = CHR ''<''" "Suc j + run label_char s (Suc j) < length s"
      "s ! (Suc j + run label_char s (Suc j)) = CHR ''>''"
      unfolding tag_at_iff by simp_all
    have "length lbl = run label_char s (Suc j)" by (simp add: t(1) run_def)
    then show ?thesis unfolding e ends_label_run using Some t by simp
  qed
qed


lemma upt_split3:
  assumes "i \<le> j" and "j < e" and "e \<le> n"
  shows "[i..<n] = [i..<j] @ j # [Suc j..<e] @ [e..<n]"
proof -
  have "[i..<n] = [i..<j] @ [j..<n]"
    using upt_add_eq_append[OF assms(1), of "n - j"] assms by simp
  moreover have "[j..<n] = j # [Suc j..<n]" using assms by (simp add: upt_conv_Cons)
  moreover have "[Suc j..<n] = [Suc j..<e] @ [e..<n]"
    using upt_add_eq_append[of "Suc j" e "n - e"] assms by simp
  ultimately show ?thesis by simp
qed

lemma map_filter_tags_empty:
  assumes "\<And>k. a \<le> k \<Longrightarrow> k < b \<Longrightarrow> tag_at s k = None"
  shows "List.map_filter (\<lambda>j. map_option (Pair j) (tag_at s j)) [a..<b] = []"
  using assms by (simp add: List.map_filter_def filter_empty_conv)

lemma tag_at_inside:
  assumes "tag_at s j = Some lbl" and "j < k" and "k < j + length lbl + 2"
  shows "tag_at s k = None"
proof -
  from assms(1) have t: "lbl = takeWhile label_char (drop (Suc j) s)"
    "s ! (Suc j + run label_char s (Suc j)) = CHR ''>''"
    unfolding tag_at_iff by simp_all
  have len: "length lbl = run label_char s (Suc j)" by (simp add: t(1) run_def)
  have "s ! k \<noteq> CHR ''<''"
  proof (cases "k - Suc j < run label_char s (Suc j)")
    case True
    from run_nth[OF True] assms(2) have "label_char (s ! k)" by simp
    then show ?thesis by (rule label_char_not_lt)
  next
    case False
    with assms(2,3) len have "k = Suc j + run label_char s (Suc j)" by simp
    with t(2) show ?thesis by simp
  qed
  then show ?thesis using tag_at_iff[of s k] by (cases "tag_at s k") auto
qed

lemma tags_from_step:
  assumes "i \<le> j" and "tag_at s j = Some lbl"
    and "\<And>k. i \<le> k \<Longrightarrow> k < j \<Longrightarrow> tag_at s k = None"
  shows "tags_from s i = (j, lbl) # tags_from s (j + length lbl + 2)"
proof -
  let ?f = "\<lambda>j. map_option (Pair j) (tag_at s j)"
  let ?e = "j + length lbl + 2"
  from assms(2) have t: "lbl = takeWhile label_char (drop (Suc j) s)"
    "Suc j + run label_char s (Suc j) < length s"
    unfolding tag_at_iff by simp_all
  have len: "length lbl = run label_char s (Suc j)" by (simp add: t(1) run_def)
  have e: "?e \<le> length s" using t(2) len by simp
  have "[i..<length s] = [i..<j] @ j # [Suc j..<?e] @ [?e..<length s]"
    by (rule upt_split3[OF assms(1) _ e]) simp
  then have "tags_from s i = List.map_filter ?f [i..<j] @ List.map_filter ?f [j]
      @ List.map_filter ?f [Suc j..<?e] @ List.map_filter ?f [?e..<length s]"
    unfolding tags_from_def by (simp add: List.map_filter_def)
  moreover have "List.map_filter ?f [i..<j] = []"
    by (rule map_filter_tags_empty) (rule assms(3))
  moreover have "List.map_filter ?f [Suc j..<?e] = []"
    by (rule map_filter_tags_empty) (rule tag_at_inside[OF assms(2)], simp_all)
  moreover have "List.map_filter ?f [j] = [(j, lbl)]"
    by (simp add: List.map_filter_def assms(2))
  ultimately show ?thesis by (simp add: tags_from_def)
qed

lemma slice_tag:
  assumes "tag_at s j = Some lbl"
  shows "slice s j (j + length lbl + 2) = ''<'' @ lbl @ ''>''"
proof -
  from assms have "prefix (''<'' @ lbl @ ''>'') (drop j s)"
    unfolding tag_at_def Let_def by (auto split: if_splits)
  then obtain zs where "drop j s = (''<'' @ lbl @ ''>'') @ zs" unfolding prefix_def by blast
  then show ?thesis by (simp add: slice_def)
qed

lemma slice_inner_tag: "slice_inner (''<'' @ lbl @ ''>'') = lbl"
  by (simp add: slice_inner_def slice_def)

lemma tag_loop_tags:
  "tag_loop s i acc = Some (acc @ map tag_span (tags_from s i))"
proof (induction "length s - i" arbitrary: i acc rule: less_induct)
  case less
  show ?case
  proof (cases "exec tagPattern s i")
    case None
    have "tag_at s k = None" if "i \<le> k" "k < length s" for k
    proof -
      have "ends tagPattern s k = []" using exec_NoneD[OF None that(1)] that(2) by simp
      then show ?thesis unfolding ends_tagPattern by (cases "tag_at s k") simp_all
    qed
    then have "tags_from s i = []" unfolding tags_from_def by (rule map_filter_tags_empty)
    moreover have "tag_loop s i acc = Some acc" by (subst tag_loop.simps) (simp add: None)
    ultimately show ?thesis by simp
  next
    case (Some a)
    obtain j e where a: "a = (j, e)" by (cases a)
    note ex = Some[unfolded a]
    have ij: "i \<le> j" by (rule exec_SomeD(1)[OF ex])
    have "ends tagPattern s j \<noteq> []" using exec_SomeD(3)[OF ex] by auto
    then obtain lbl where lbl: "tag_at s j = Some lbl"
      unfolding ends_tagPattern by (cases "tag_at s j") auto
    have e: "e = j + length lbl + 2"
      using exec_SomeD(4)[OF ex] unfolding ends_tagPattern lbl by simp
    have before: "tag_at s k = None" if "i \<le> k" "k < j" for k
    proof -
      have "ends tagPattern s k = []" using exec_SomeD(5)[OF ex] that by simp
      then show ?thesis unfolding ends_tagPattern by (cases "tag_at s k") simp_all
    qed
    have step: "tags_from s i = (j, lbl) # tags_from s e"
      unfolding e by (rule tags_from_step[OF ij lbl before])
    have el: "e \<le> length s" by (rule exec_bounds(2)[OF ex])
    have sl: "slice s j e = ''<'' @ lbl @ ''>''" unfolding e by (rule slice_tag[OF lbl])
    define m where "m = \<lparr>type = normalizeEntityType (slice_inner (slice s j e)),
                     original = ''['' @ slice_inner (slice s j e) @ '']'',
                     replacement = slice s j e,
                     start = j,
                     end' = j + length (slice s j e)\<rparr>"
    have m: "m = tag_span (j, lbl)"
      unfolding m_def sl slice_inner_tag tag_span_def by simp
    have "length s - e < length s - i" using ij e el by simp
    from less[OF this, of "acc @ [m]"]
    have "tag_loop s e (acc @ [m]) = Some ((acc @ [m]) @ map tag_span (tags_from s e))" .
    moreover have "tag_loop s i acc = tag_loop s e (acc @ [m])"
      by (subst tag_loop.simps) (simp add: ex m_def)
    ultimately show ?thesis by (simp add: step m)
  qed
qed

subsection \<open>The results of the two modes\<close>

lemma uniqueMatches_id:
  assumes "sorted (map start ms)" and "distinct (map start ms)"
  shows "uniqueMatches ms = ms"
proof -
  have s: "sort_by_start ms = ms"
    unfolding sort_by_start_def by (rule sort_key_id_if_sorted[OF assms(1)])
  have "filter (\<lambda>index. index = 0
                   \<or> start (ms ! index) \<noteq> start (ms ! (index - 1))
                   \<or> end' (ms ! index) \<noteq> end' (ms ! (index - 1))) [0..<length ms]
        = [0..<length ms]"
  unfolding filter_id_conv
  proof
    fix i assume "i \<in> set [0..<length ms]"
    then have i: "i < length ms" by simp
    show "i = 0 \<or> start (ms ! i) \<noteq> start (ms ! (i - 1)) \<or> end' (ms ! i) \<noteq> end' (ms ! (i - 1))"
    proof (cases "i = 0")
      case True
      then show ?thesis by simp
    next
      case False
      have "map start ms ! i \<noteq> map start ms ! (i - 1)"
        using nth_eq_iff_index_eq[OF assms(2), of i "i - 1"] i False by simp
      then show ?thesis using i by simp
    qed
  qed
  then show ?thesis unfolding uniqueMatches_def s Let_def by (simp add: map_nth)
qed

lemma map_fst_tags_from:
  "map fst (tags_from s i) = filter (\<lambda>j. tag_at s j \<noteq> None) [i..<length s]"
proof -
  have "map fst (tags_from s i)
      = map (\<lambda>j. fst (the (map_option (Pair j) (tag_at s j))))
          (filter (\<lambda>j. tag_at s j \<noteq> None) [i..<length s])"
    unfolding tags_from_def List.map_filter_def by (simp add: comp_def)
  also have "\<dots> = map (\<lambda>j. j) (filter (\<lambda>j. tag_at s j \<noteq> None) [i..<length s])"
    by (rule map_cong) auto
  finally show ?thesis by simp
qed

lemma start_tag_spans: "map start (map tag_span ts) = map fst ts"
  by (simp add: tag_span_def comp_def)

lemma tag_spans_sorted:
  "sorted (map start (map tag_span (tags_from s i)))"
  "distinct (map start (map tag_span (tags_from s i)))"
  unfolding start_tag_spans map_fst_tags_from by (simp_all add: sorted_filter[where f = "\<lambda>x. x", simplified])

lemma tags_from_bounds:
  assumes "(j, lbl) \<in> set (tags_from s i)"
  shows "tag_at s j = Some lbl" and "j + length lbl + 2 \<le> length s"
proof -
  from assms show t: "tag_at s j = Some lbl"
    unfolding tags_from_def List.map_filter_def by auto
  then have "lbl = takeWhile label_char (drop (Suc j) s)"
    "Suc j + run label_char s (Suc j) < length s" unfolding tag_at_iff by simp_all
  then show "j + length lbl + 2 \<le> length s" by (simp add: run_def)
qed

lemma modeB_result:
  "map_option uniqueMatches (tag_loop c 0 []) = Some (map tag_span (tags_from c 0))"
  using tag_loop_tags[of c 0 "[]"] uniqueMatches_id[OF tag_spans_sorted, of c 0] by simp

lemma modeA_inv_step:
  assumes "(orig, repl) \<in> set entries"
    and "modeA_inv c entries (processedPositions st) (matches st)"
    and "scan_step c orig repl st = Some st'"
  shows "modeA_inv c entries (processedPositions st') (matches st')"
  using assms(3)
proof (cases rule: scan_step_cases)
  case (claimed index)
  with assms(2) show ?thesis by simp
next
  case (accepted index)
  have b: "index + length repl \<le> length c"
    using indexOf_SomeD(2)[OF accepted(2)] accepted(1) by simp
  have "(index, index + length repl) \<notin> set (map span_range (matches st))"
    using accepted(3) assms(2) unfolding modeA_inv_def by blast
  with assms(1,2) b show ?thesis
    unfolding modeA_inv_def accepted(4) by (auto simp: span_range_def)
qed

lemma modeA_result:
  "\<exists>ms P. scan_entries c entries {} [] = Some ms \<and> modeA_inv c entries P ms"
proof (rule scan_entries_rule[where I = "modeA_inv c entries"])
  show "modeA_inv c entries {} []" by (simp add: modeA_inv_def)
next
  fix orig repl st st'
  assume "(orig, repl) \<in> set entries" "modeA_inv c entries (processedPositions st) (matches st)"
    "scan_step c orig repl st = Some st'"
  then show "modeA_inv c entries (processedPositions st') (matches st')"
    by (rule modeA_inv_step)
qed

lemma replace_absent: "\<not> includes_str s pat \<Longrightarrow> replace s pat rep = s"
  by (simp add: includes_str_def replace_def)

lemma convert_modeB:
  assumes "syntheticMap = None \<or> syntheticMap = Some []"
  shows "convertBackendResponseToMatches originalText cleanText its syntheticMap
           = Some (map tag_span (tags_from cleanText 0))"
  using assms modeB_result[of cleanText]
  unfolding convertBackendResponseToMatches_def by auto

lemma convert_modeA:
  assumes "syntheticMap = Some entries" and "entries \<noteq> []"
  shows "\<exists>raw P. modeA_inv cleanText entries P raw
           \<and> convertBackendResponseToMatches originalText cleanText its syntheticMap
               = Some (uniqueMatches raw)"
proof -
  from modeA_result[of cleanText entries] obtain raw P where
    "scan_entries cleanText entries {} [] = Some raw" and "modeA_inv cleanText entries P raw"
    by blast
  then show ?thesis
    using assms unfolding convertBackendResponseToMatches_def by auto
qed

lemma tag_span_props:
  assumes "m \<in> set (map tag_span (tags_from c i))"
  shows "end' m = start m + length (replacement m)" and "start m < end' m"
    and "end' m \<le> length c"
proof -
  from assms obtain j lbl where t: "(j, lbl) \<in> set (tags_from c i)" and m: "m = tag_span (j, lbl)"
    by auto
  show "end' m = start m + length (replacement m)" "start m < end' m"
    by (simp_all add: m tag_span_def)
  show "end' m \<le> length c" using tags_from_bounds(2)[OF t] by (simp add: m tag_span_def)
qed

lemma convert_total:
  "\<exists>ms. convertBackendResponseToMatches originalText cleanText its syntheticMap = Some ms
      \<and> sorted (map start ms) \<and> distinct (map span_range ms)
      \<and> (\<forall>m\<in>set ms. end' m = start m + length (replacement m) \<and> end' m \<le> length cleanText
             \<and> ([] \<notin> snd ` set (case syntheticMap of None \<Rightarrow> [] | Some es \<Rightarrow> es)
                  \<longrightarrow> start m < end' m))"
proof (cases "syntheticMap = None \<or> syntheticMap = Some []")
  case True
  let ?ms = "map tag_span (tags_from cleanText 0)"
  have c: "convertBackendResponseToMatches originalText cleanText its syntheticMap = Some ?ms"
    by (rule convert_modeB[OF True])
  have "distinct (map start ?ms)" by (rule tag_spans_sorted(2))
  moreover have "map start ?ms = map fst (map span_range ?ms)"
    by (simp add: span_range_def comp_def)
  ultimately have d: "distinct (map span_range ?ms)" by (metis distinct_map)
  have s: "sorted (map start ?ms)" by (rule tag_spans_sorted(1))
  have "\<forall>m\<in>set ?ms. end' m = start m + length (replacement m)
       \<and> end' m \<le> length cleanText
       \<and> ([] \<notin> snd ` set (case syntheticMap of None \<Rightarrow> [] | Some es \<Rightarrow> es)
            \<longrightarrow> start m < end' m)"
  proof
    fix m assume m: "m \<in> set ?ms"
    show "end' m = start m + length (replacement m) \<and> end' m \<le> length cleanText
       \<and> ([] \<notin> snd ` set (case syntheticMap of None \<Rightarrow> [] | Some es \<Rightarrow> es)
            \<longrightarrow> start m < end' m)"
      using tag_span_props[OF m] by blast
  qed
  with c d s show ?thesis by blast
next
  case False
  then obtain entries where e: "syntheticMap = Some entries" "entries \<noteq> []"
    by (cases syntheticMap) auto
  from convert_modeA[OF e, of cleanText originalText its] obtain raw P where
    inv: "modeA_inv cleanText entries P raw"
    and c: "convertBackendResponseToMatches originalText cleanText its syntheticMap
              = Some (uniqueMatches raw)" by blast
  have s: "sorted (map start (uniqueMatches raw))" by (rule sorted_uniqueMatches)
  have d: "distinct (map span_range (uniqueMatches raw))"
    using inv unfolding modeA_inv_def by (intro distinct_uniqueMatches) simp
  have "\<forall>m\<in>set (uniqueMatches raw). end' m = start m + length (replacement m)
       \<and> end' m \<le> length cleanText
       \<and> ([] \<notin> snd ` set (case syntheticMap of None \<Rightarrow> [] | Some es \<Rightarrow> es)
            \<longrightarrow> start m < end' m)"
  proof
    fix m assume "m \<in> set (uniqueMatches raw)"
    then have "m \<in> set raw" using set_uniqueMatches by blast
    then have w: "end' m = start m + length (replacement m)" and l: "end' m \<le> length cleanText"
      and r: "(original m, replacement m) \<in> set entries"
      using inv unfolding modeA_inv_def by blast+
    from r have "replacement m \<in> snd ` set entries" by force
    then have "[] \<notin> snd ` set entries \<longrightarrow> replacement m \<noteq> []" by metis
    then have "[] \<notin> snd ` set entries \<longrightarrow> start m < end' m" using w by simp
    with w l show "end' m = start m + length (replacement m) \<and> end' m \<le> length cleanText
       \<and> ([] \<notin> snd ` set (case syntheticMap of None \<Rightarrow> [] | Some es \<Rightarrow> es)
            \<longrightarrow> start m < end' m)"
      by (simp add: e(1))
  qed
  with c d s show ?thesis by blast
qed


lemma tags_from_complete:
  "(j, lbl) \<in> set (tags_from s 0) \<longleftrightarrow> tag_at s j = Some lbl"
proof
  assume "(j, lbl) \<in> set (tags_from s 0)"
  then show "tag_at s j = Some lbl" by (rule tags_from_bounds(1))
next
  assume t: "tag_at s j = Some lbl"
  then have "j < length s" unfolding tag_at_iff by simp
  with t show "(j, lbl) \<in> set (tags_from s 0)"
    unfolding tags_from_def List.map_filter_def by force
qed

lemma tags_from_increasing: "sorted_wrt (<) (map fst (tags_from s i))"
  unfolding map_fst_tags_from strict_sorted_iff
  by (simp add: sorted_filter[where f = "\<lambda>x. x", simplified])

subsection \<open>The parts of the segmenter\<close>

lemma consume_append:
  "consume text ms pos (ps @ qs)
     = (case consume text ms pos ps of None \<Rightarrow> None | Some p \<Rightarrow> consume text ms p qs)"
proof (induction ps arbitrary: pos)
  case Nil
  then show ?case by simp
next
  case (Cons p ps)
  then show ?case by (cases p) simp_all
qed

lemma redacted_indices_append:
  "redacted_indices (ps @ qs) = redacted_indices ps @ redacted_indices qs"
proof (induction ps)
  case Nil
  then show ?case by simp
next
  case (Cons p ps)
  then show ?case by (cases p) simp_all
qed

lemma slice_self: "a \<le> b \<Longrightarrow> b \<le> length s \<Longrightarrow> slice s a (a + length (slice s a b)) = slice s a b"
  by (simp add: slice_def)

lemma forEach_match_consumes:
  assumes "ms = drop i all" and "i \<le> length all"
    and "consume text all 0 parts = Some lastIndex"
    and "redacted_indices parts = [0..<i]"
    and "\<forall>m\<in>set ms. lastIndex \<le> start m \<and> start m \<le> end' m \<and> end' m \<le> length text"
    and "sorted_wrt (\<lambda>a b. end' a \<le> start b) ms"
    and "forEach_match text ms i lastIndex parts = (L, ps)"
  shows "consume text all 0 ps = Some L \<and> redacted_indices ps = [0..<length all]
           \<and> (ms = [] \<or> L \<le> length text)"
  using assms
proof (induction ms arbitrary: i lastIndex parts)
  case Nil
  then have "i = length all" by simp
  with Nil show ?case by simp
next
  case (Cons m ms)
  from Cons.prems(1) have i: "i < length all"
    by (metis drop_all list.distinct(1) not_le)
  have m: "all ! i = m" and rest: "ms = drop (Suc i) all"
    using Cons.prems(1) i by (metis Cons_nth_drop_Suc list.inject)+
  from Cons.prems(5) have b: "lastIndex \<le> start m" "start m \<le> end' m" "end' m \<le> length text"
    by simp_all
  define parts' where "parts' =
     (if start m > lastIndex then parts @ [TextPart i (slice text lastIndex (start m))]
      else parts) @ [RedactedPart i (replacement m)]"
  have c: "consume text all 0 parts' = Some (end' m)"
  proof (cases "start m > lastIndex")
    case True
    let ?t = "slice text lastIndex (start m)"
    have len: "length ?t = start m - lastIndex" using b by (simp add: slice_def)
    have "consume text all lastIndex [TextPart i ?t, RedactedPart i (replacement m)]
            = Some (end' m)"
      using True b i m len by (simp add: slice_def)
    then show ?thesis
      using True Cons.prems(3) by (simp add: parts'_def consume_append)
  next
    case False
    with b have "start m = lastIndex" by simp
    then have "consume text all lastIndex [RedactedPart i (replacement m)] = Some (end' m)"
      using i m by simp
    then show ?thesis
      using False Cons.prems(3) by (simp add: parts'_def consume_append)
  qed
  have r: "redacted_indices parts' = [0..<Suc i]"
    using Cons.prems(4) by (simp add: parts'_def redacted_indices_append)
  have o: "\<forall>x\<in>set ms. end' m \<le> start x \<and> start x \<le> end' x \<and> end' x \<le> length text"
    using Cons.prems(5,6) by simp
  have s: "sorted_wrt (\<lambda>a b. end' a \<le> start b) ms" using Cons.prems(6) by simp
  have f: "forEach_match text ms (Suc i) (end' m) parts' = (L, ps)"
    using Cons.prems(7) by (simp add: parts'_def)
  from Cons.IH[OF rest _ c r o s f] i
  have 1: "consume text all 0 ps = Some L" and 2: "redacted_indices ps = [0..<length all]"
    and 3: "ms = [] \<or> L \<le> length text" by simp_all
  have "L \<le> length text"
  proof (cases ms)
    case Nil
    with f have "L = end' m" by simp
    with b show ?thesis by simp
  next
    case (Cons a list)
    with 3 show ?thesis by simp
  qed
  with 1 2 show ?case by simp
qed

subsection \<open>The shapes of the classifier\<close>

lemma indexOf_aux_single: "indexOf_aux [c] xs k \<noteq> None \<longleftrightarrow> c \<in> set xs"
  by (induction xs arbitrary: k) auto

lemma includes_str_single: "includes_str s [c] \<longleftrightarrow> c \<in> set s"
  using indexOf_aux_single[of c s 0] by (simp add: includes_str_def indexOf_def)

lemma exec_None_iff: "exec r s i = None \<longleftrightarrow> (\<forall>j. i \<le> j \<and> j \<le> length s \<longrightarrow> ends r s j = [])"
proof
  assume "exec r s i = None"
  then show "\<forall>j. i \<le> j \<and> j \<le> length s \<longrightarrow> ends r s j = []"
    using exec_NoneD by blast
next
  assume a: "\<forall>j. i \<le> j \<and> j \<le> length s \<longrightarrow> ends r s j = []"
  have "filter (\<lambda>j. ends r s j \<noteq> []) [i..<Suc (length s)] = []"
    unfolding filter_empty_conv using a by (auto simp del: upt_Suc)
  then show "exec r s i = None" by (simp add: exec_def del: upt_Suc)
qed

lemma matches_rx_Bol: "matches_rx s (Cat Bol r) \<longleftrightarrow> ends r s 0 \<noteq> []"
proof -
  have "ends (Cat Bol r) s j = (if j = 0 then ends r s 0 else [])" for j by simp
  then have "(\<forall>j. 0 \<le> j \<and> j \<le> length s \<longrightarrow> ends (Cat Bol r) s j = []) \<longleftrightarrow> ends r s 0 = []"
    by auto
  then show ?thesis unfolding matches_rx_def exec_None_iff by simp
qed

lemma key_prefix_shape_iff:
  "matches_rx v key_prefix_shape \<longleftrightarrow> prefix ''sk-'' v \<or> prefix ''ghp_'' v \<or> prefix ''AKIA'' v"
proof -
  have le: "prefix w v \<Longrightarrow> length w \<le> length v" for w by (rule prefix_length_le)
  have k: "key_prefix_shape = Cat Bol (Cat (Alt (Lit ''sk-'') (Alt (Lit ''ghp_'') (Lit ''AKIA''))) (Lit []))"
    by (simp add: key_prefix_shape_def cats_def)
  show ?thesis
    unfolding k matches_rx_Bol using le[of "''sk-''"] le[of "''ghp_''"] le[of "''AKIA''"]
    by auto
qed

lemma run_le: "i + run p s i \<le> length s \<or> length s < i"
  unfolding run_def using length_takeWhile_le[of p "drop i s"] by (simp, linarith)

lemma run_all: "i \<le> length s \<Longrightarrow> i + run p s i = length s \<longleftrightarrow> list_all p (drop i s)"
proof -
  assume i: "i \<le> length s"
  have "length (takeWhile p (drop i s)) = length (drop i s) \<longleftrightarrow> takeWhile p (drop i s) = drop i s"
  proof
    assume l: "length (takeWhile p (drop i s)) = length (drop i s)"
    have "takeWhile p (drop i s) = take (length (takeWhile p (drop i s))) (drop i s)"
      by (rule takeWhile_eq_take)
    then show "takeWhile p (drop i s) = drop i s" unfolding l by simp
  next
    assume "takeWhile p (drop i s) = drop i s"
    then show "length (takeWhile p (drop i s)) = length (drop i s)" by (rule arg_cong)
  qed
  then show ?thesis using i
    by (auto simp: run_def takeWhile_eq_all_conv list_all_iff)
qed

lemma ends_rep_to_end:
  assumes "i \<le> length s"
  shows "ends (Cat (Rep n None p) (Cat Eol (Lit []))) s i \<noteq> []
     \<longleftrightarrow> n \<le> length s - i \<and> list_all p (drop i s)"
proof -
  let ?k = "run p s i"
  have k: "i + ?k \<le> length s" using run_le[of i p s] assms by simp
  have E: "ends (Cat Eol (Lit [])) s e = (if e = length s then [e] else [])" for e by simp
  have "ends (Cat (Rep n None p) (Cat Eol (Lit []))) s i \<noteq> []
     \<longleftrightarrow> (\<exists>j. n \<le> j \<and> j \<le> ?k \<and> i + j = length s)"
    unfolding ends.simps(3) E using k by (auto simp: Let_def)
  also have "\<dots> \<longleftrightarrow> n \<le> ?k \<and> i + ?k = length s" using k by auto
  also have "\<dots> \<longleftrightarrow> n \<le> length s - i \<and> list_all p (drop i s)"
    using run_all[OF assms, of p] by auto
  finally show ?thesis .
qed

lemma phone_shape_iff:
  "matches_rx v phone_shape \<longleftrightarrow>
     (\<exists>body. (v = body \<or> v = ''+'' @ body) \<and> 10 \<le> length body \<and> list_all phone_char body)"
proof -
  let ?R = "Cat (Rep 10 None phone_char) (Cat Eol (Lit []))"
  have ps: "phone_shape = Cat Bol (Cat (Opt (Lit ''+'')) ?R)"
    by (simp add: phone_shape_def cats_def)
  have plus: "prefix ''+'' v \<longleftrightarrow> (\<exists>body. v = ''+'' @ body)" by (auto simp: prefix_def)
  have e: "ends (Cat (Opt (Lit ''+'')) ?R) v 0
      = (if prefix ''+'' v then ends ?R v 1 else []) @ ends ?R v 0"
    by (simp del: ends.simps(6))
  have r0: "ends ?R v 0 \<noteq> [] \<longleftrightarrow> 10 \<le> length v \<and> list_all phone_char v"
    using ends_rep_to_end[of 0 v 10 phone_char] by simp
  have r1: "ends ?R v 1 \<noteq> [] \<longleftrightarrow> 10 \<le> length v - 1 \<and> list_all phone_char (drop 1 v)"
    if "prefix ''+'' v"
    using ends_rep_to_end[of 1 v 10 phone_char] that prefix_length_le[OF that] by simp
  have "matches_rx v phone_shape \<longleftrightarrow>
      (prefix ''+'' v \<and> 10 \<le> length v - 1 \<and> list_all phone_char (drop 1 v))
      \<or> (10 \<le> length v \<and> list_all phone_char v)"
    unfolding ps matches_rx_Bol e using r0 r1 by auto
  also have "\<dots> \<longleftrightarrow>
     (\<exists>body. (v = body \<or> v = ''+'' @ body) \<and> 10 \<le> length body \<and> list_all phone_char body)"
    unfolding plus by auto
  finally show ?thesis .
qed

lemma slice_split: "i \<le> k \<Longrightarrow> k \<le> e \<Longrightarrow> slice s i e = slice s i k @ slice s k e"
proof -
  assume a: "i \<le> k" "k \<le> e"
  then have "e - i = (k - i) + (e - k)" by simp
  then have "take (e - i) (drop i s) = take (k - i) (drop i s) @ take (e - k) (drop (k - i) (drop i s))"
    by (simp only: take_add)
  with a show ?thesis by (simp add: slice_def)
qed

lemma slice_one: "i < length s \<Longrightarrow> slice s i (Suc i) = [s ! i]"
  by (simp add: slice_def take_Suc_conv_app_nth[of 0, simplified] hd_drop_conv_nth take_Suc)

lemma slice_empty: "slice s i i = []"
  by (simp add: slice_def)

lemma run_ge_iff:
  "j \<le> run p s i \<longleftrightarrow> j = 0 \<or> (i + j \<le> length s \<and> list_all p (slice s i (i + j)))"
proof (cases "j = 0")
  case True
  then show ?thesis by simp
next
  case False
  show ?thesis
  proof
    assume j: "j \<le> run p s i"
    let ?t = "takeWhile p (drop i s)"
    have "take j (drop i s) = take j ?t"
    proof -
      have "?t = take (length ?t) (drop i s)" by (rule takeWhile_eq_take)
      then have "take j ?t = take j (take (length ?t) (drop i s))" by simp
      also have "\<dots> = take j (drop i s)" using j by (simp add: run_def min_def)
      finally show ?thesis by simp
    qed
    moreover have "\<forall>x\<in>set (take j ?t). p x"
      by (meson in_set_takeD set_takeWhileD)
    moreover have "i + j \<le> length s"
      using j length_takeWhile_le[of p "drop i s"] False by (simp add: run_def)
    ultimately show "j = 0 \<or> (i + j \<le> length s \<and> list_all p (slice s i (i + j)))"
      by (simp add: slice_def list_all_iff)
  next
    assume "j = 0 \<or> (i + j \<le> length s \<and> list_all p (slice s i (i + j)))"
    with False have l: "i + j \<le> length s" and a: "\<forall>x\<in>set (take j (drop i s)). p x"
      by (simp_all add: slice_def list_all_iff)
    define xs where "xs = drop i s"
    have lx: "j \<le> length xs" using l by (simp add: xs_def)
    have "takeWhile p (take j xs @ drop j xs) = take j xs @ takeWhile p (drop j xs)"
      by (rule takeWhile_append2) (use a in \<open>simp add: xs_def\<close>)
    then have "takeWhile p xs = take j xs @ takeWhile p (drop j xs)" by simp
    then have "length (takeWhile p xs) = length (take j xs) + length (takeWhile p (drop j xs))"
      by (metis length_append)
    with lx have "j \<le> length (takeWhile p xs)" by simp
    then show "j \<le> run p s i" by (simp add: run_def xs_def)
  qed
qed


lemma ends_lang:
  "plain r \<Longrightarrow> i \<le> length s \<Longrightarrow>
     e \<in> set (ends r s i) \<longleftrightarrow> i \<le> e \<and> e \<le> length s \<and> slice s i e \<in> lang r"
proof (induction r arbitrary: i e)
  case (Cls p)
  show ?case
  proof
    assume "e \<in> set (ends (Cls p) s i)"
    then have "i < length s" "p (s ! i)" "e = Suc i" by (auto split: if_splits)
    then show "i \<le> e \<and> e \<le> length s \<and> slice s i e \<in> lang (Cls p)"
      by (simp add: slice_one)
  next
    assume a: "i \<le> e \<and> e \<le> length s \<and> slice s i e \<in> lang (Cls p)"
    then obtain c where c: "slice s i e = [c]" "p c" by auto
    from a have ie: "i \<le> e" "e \<le> length s" by simp_all
    then have "length (slice s i e) = e - i" by (simp add: length_slice)
    with c(1) have "e - i = 1" by simp
    with ie have e: "e = Suc i" "i < length s" by linarith+
    with c show "e \<in> set (ends (Cls p) s i)" by (simp add: slice_one)
  qed
next
  case (Lit w)
  show ?case
  proof
    assume "e \<in> set (ends (Lit w) s i)"
    then have p: "prefix w (drop i s)" and e: "e = i + length w" by (auto split: if_splits)
    have l: "i + length w \<le> length s" using prefix_length_le[OF p] Lit.prems(2) by simp
    from p obtain zs where "drop i s = w @ zs" unfolding prefix_def by blast
    then have "slice s i e = w" using e by (simp add: slice_def)
    with l e show "i \<le> e \<and> e \<le> length s \<and> slice s i e \<in> lang (Lit w)" by simp
  next
    assume a: "i \<le> e \<and> e \<le> length s \<and> slice s i e \<in> lang (Lit w)"
    then have w: "slice s i e = w" and ie: "i \<le> e" "e \<le> length s" by simp_all
    have "length (slice s i e) = e - i" by (rule length_slice[OF ie(2)])
    with w ie have e: "e = i + length w" by simp
    have "prefix (take (e - i) (drop i s)) (drop i s)" by (rule take_is_prefix)
    then have "prefix w (drop i s)" using w by (simp add: slice_def)
    with e Lit.prems(2) show "e \<in> set (ends (Lit w) s i)" by simp
  qed
next
  case (Cat r1 r2)
  from Cat.prems(1) have p1: "plain r1" and p2: "plain r2" by simp_all
  show ?case
  proof
    assume "e \<in> set (ends (Cat r1 r2) s i)"
    then obtain k where k: "k \<in> set (ends r1 s i)" and e: "e \<in> set (ends r2 s k)" by auto
    from k have k': "i \<le> k" "k \<le> length s" "slice s i k \<in> lang r1"
      using Cat.IH(1)[OF p1 Cat.prems(2)] by simp_all
    from e have e': "k \<le> e" "e \<le> length s" "slice s k e \<in> lang r2"
      using Cat.IH(2)[OF p2 k'(2)] by simp_all
    have "slice s i e = slice s i k @ slice s k e" by (rule slice_split[OF k'(1) e'(1)])
    with k' e' show "i \<le> e \<and> e \<le> length s \<and> slice s i e \<in> lang (Cat r1 r2)" by auto
  next
    assume a: "i \<le> e \<and> e \<le> length s \<and> slice s i e \<in> lang (Cat r1 r2)"
    then obtain u v where uv: "slice s i e = u @ v" "u \<in> lang r1" "v \<in> lang r2" by auto
    from a have ie: "i \<le> e" "e \<le> length s" by simp_all
    have len: "length (slice s i e) = e - i" by (rule length_slice[OF ie(2)])
    define k where "k = i + length u"
    have "length u \<le> e - i" using len uv(1) by simp
    then have k: "i \<le> k" "k \<le> e" using ie by (simp_all add: k_def)
    have "slice s i e = slice s i k @ slice s k e" by (rule slice_split[OF k])
    moreover have "length (slice s i k) = length u"
      using length_slice[of k s i] k ie by (simp add: k_def)
    ultimately have "slice s i k = u" "slice s k e = v" using uv(1) by simp_all
    with uv have 1: "k \<in> set (ends r1 s i)" and 2: "e \<in> set (ends r2 s k)"
      using Cat.IH(1)[OF p1 Cat.prems(2), of k] Cat.IH(2)[OF p2, of k e] k ie by simp_all
    then show "e \<in> set (ends (Cat r1 r2) s i)" by auto
  qed
next
  case (Alt r1 r2)
  then show ?case by auto
next
  case (Opt r)
  from Opt.prems(1) have p: "plain r" by simp
  show ?case
  proof (cases "e = i")
    case True
    with Opt.prems(2) show ?thesis by (simp add: slice_empty)
  next
    case False
    have "slice s i e \<noteq> []" if "i \<le> e" "e \<le> length s"
      using length_slice[OF that(2), of i] that(1) False by auto
    with False Opt.IH[OF p Opt.prems(2), of e] show ?thesis by auto
  qed
next
  case (Rep mn mx p)
  define k where "k = (case mx of None \<Rightarrow> run p s i | Some m \<Rightarrow> min m (run p s i))"
  have img: "set (ends (Rep mn mx p) s i) = (\<lambda>j. i + j) ` {mn..k}"
  proof (cases "k < mn")
    case True
    then show ?thesis by (simp add: k_def Let_def)
  next
    case False
    have "set [mn..<Suc k] = {mn..k}" by auto
    with False show ?thesis by (simp add: k_def[symmetric] Let_def del: upt_Suc)
  qed
  have mem: "e \<in> (\<lambda>j. i + j) ` {mn..k} \<longleftrightarrow> i \<le> e \<and> mn \<le> e - i \<and> e - i \<le> k"
  proof
    assume "e \<in> (\<lambda>j. i + j) ` {mn..k}"
    then show "i \<le> e \<and> mn \<le> e - i \<and> e - i \<le> k" by auto
  next
    assume "i \<le> e \<and> mn \<le> e - i \<and> e - i \<le> k"
    then show "e \<in> (\<lambda>j. i + j) ` {mn..k}"
      by (intro image_eqI[where x = "e - i"]) auto
  qed
  have kk: "e - i \<le> k \<longleftrightarrow>
      e - i \<le> run p s i \<and> (case mx of None \<Rightarrow> True | Some m \<Rightarrow> e - i \<le> m)"
    by (auto simp: k_def split: option.splits)
  have 1: "e \<in> set (ends (Rep mn mx p) s i) \<longleftrightarrow>
      i \<le> e \<and> mn \<le> e - i \<and> e - i \<le> run p s i
      \<and> (case mx of None \<Rightarrow> True | Some m \<Rightarrow> e - i \<le> m)"
    unfolding img mem kk by blast
  have 2: "e - i \<le> run p s i \<longleftrightarrow> e \<le> length s \<and> list_all p (slice s i e)" if "i \<le> e"
  proof (cases "e = i")
    case True
    with Rep.prems(2) show ?thesis by (simp add: slice_empty)
  next
    case False
    with that run_ge_iff[of "e - i" p s i] show ?thesis by simp
  qed
  show ?case
  proof (cases "i \<le> e \<and> e \<le> length s")
    case True
    then have l: "length (slice s i e) = e - i" by (simp add: length_slice)
    from True 2 show ?thesis unfolding 1 by (cases mx) (auto simp: l)
  next
    case False
    with 2 show ?thesis unfolding 1 by auto
  qed
qed simp_all


lemma ends_to_end:
  "i \<le> length s \<Longrightarrow>
     ends (foldr Cat rs (Cat Eol (Lit []))) s i \<noteq> []
       \<longleftrightarrow> length s \<in> set (ends (foldr Cat rs (Lit [])) s i)"
proof (induction rs arbitrary: i)
  case Nil
  then show ?case by auto
next
  case (Cons r rs)
  have "ends (foldr Cat (r # rs) (Cat Eol (Lit []))) s i \<noteq> []
      \<longleftrightarrow> (\<exists>k\<in>set (ends r s i). ends (foldr Cat rs (Cat Eol (Lit []))) s k \<noteq> [])"
    by simp
  also have "\<dots> \<longleftrightarrow> (\<exists>k\<in>set (ends r s i). length s \<in> set (ends (foldr Cat rs (Lit [])) s k))"
  proof (rule bex_cong[OF refl])
    fix k assume "k \<in> set (ends r s i)"
    then have "k \<le> length s" using ends_bounds[OF Cons.prems] by blast
    then show "ends (foldr Cat rs (Cat Eol (Lit []))) s k \<noteq> []
        \<longleftrightarrow> length s \<in> set (ends (foldr Cat rs (Lit [])) s k)"
      by (rule Cons.IH)
  qed
  also have "\<dots> \<longleftrightarrow> length s \<in> set (ends (foldr Cat (r # rs) (Lit [])) s i)" by simp
  finally show ?case .
qed

lemma anchored_matches:
  assumes "plain (cats rs)"
  shows "matches_rx s (cats (Bol # rs @ [Eol])) \<longleftrightarrow> s \<in> lang (cats rs)"
proof -
  have "cats (Bol # rs @ [Eol]) = Cat Bol (foldr Cat rs (Cat Eol (Lit [])))"
    by (simp add: cats_def)
  then have "matches_rx s (cats (Bol # rs @ [Eol]))
      \<longleftrightarrow> ends (foldr Cat rs (Cat Eol (Lit []))) s 0 \<noteq> []"
    by (simp only: matches_rx_Bol)
  also have "\<dots> \<longleftrightarrow> length s \<in> set (ends (cats rs) s 0)"
    unfolding cats_def by (rule ends_to_end) simp
  also have "\<dots> \<longleftrightarrow> slice s 0 (length s) \<in> lang (cats rs)"
    using ends_lang[OF assms, of 0 s "length s"] by simp
  finally show ?thesis by (simp add: slice_def)
qed

lemma lang_cats: "lang (cats rs) = seq (map lang rs)"
  unfolding cats_def seq_def by (induction rs) simp_all

lemma lang_digits: "lang (Rep lo (Some hi) is_digit) = digit_strings lo hi"
  by (simp add: digit_strings_def)

lemma lang_opt_cls: "lang (Opt (Cls p)) = opt_char p"
  by (simp add: opt_char_def)

lemma lang_opt_dash: "lang (Opt (Lit ''-'')) = opt_char (\<lambda>c. c = CHR ''-'')"
  by (auto simp: opt_char_def)

lemma ssn_shape_iff:
  "matches_rx v ssn_shape \<longleftrightarrow>
     v \<in> seq [digit_strings 3 3, opt_char (\<lambda>c. c = CHR ''-''), digit_strings 2 2,
              opt_char (\<lambda>c. c = CHR ''-''), digit_strings 4 4]"
proof -
  let ?rs = "[digits 3, Opt (Lit ''-''), digits 2, Opt (Lit ''-''), digits 4]"
  have e: "ssn_shape = cats (Bol # ?rs @ [Eol])" by (simp add: ssn_shape_def)
  have p: "plain (cats ?rs)" by (simp add: cats_def digits_def)
  have "matches_rx v ssn_shape \<longleftrightarrow> v \<in> lang (cats ?rs)"
    unfolding e by (rule anchored_matches[OF p])
  then show ?thesis
    by (simp add: lang_cats digits_def lang_digits lang_opt_dash del: lang.simps)
qed

lemma card_shape_iff:
  "matches_rx v card_shape \<longleftrightarrow>
     v \<in> seq [digit_strings 4 4, opt_char dash_or_space, digit_strings 4 4,
              opt_char dash_or_space, digit_strings 4 4, opt_char dash_or_space,
              digit_strings 4 4]"
proof -
  let ?rs = "[digits 4, Opt (Cls dash_or_space), digits 4, Opt (Cls dash_or_space),
             digits 4, Opt (Cls dash_or_space), digits 4]"
  have e: "card_shape = cats (Bol # ?rs @ [Eol])" by (simp add: card_shape_def)
  have p: "plain (cats ?rs)" by (simp add: cats_def digits_def)
  have "matches_rx v card_shape \<longleftrightarrow> v \<in> lang (cats ?rs)"
    unfolding e by (rule anchored_matches[OF p])
  then show ?thesis
    by (simp add: lang_cats digits_def lang_digits lang_opt_cls del: lang.simps)
qed

lemma ip_shape_iff:
  "matches_rx v ip_shape \<longleftrightarrow>
     v \<in> seq [digit_strings 1 3, {''.''}, digit_strings 1 3, {''.''}, digit_strings 1 3,
              {''.''}, digit_strings 1 3]"
proof -
  let ?rs = "[Rep 1 (Some 3) is_digit, Lit ''.'', Rep 1 (Some 3) is_digit, Lit ''.'',
             Rep 1 (Some 3) is_digit, Lit ''.'', Rep 1 (Some 3) is_digit]"
  have e: "ip_shape = cats (Bol # ?rs @ [Eol])" by (simp add: ip_shape_def)
  have p: "plain (cats ?rs)" by (simp add: cats_def)
  have "matches_rx v ip_shape \<longleftrightarrow> v \<in> lang (cats ?rs)"
    unfolding e by (rule anchored_matches[OF p])
  then show ?thesis
    by (simp add: lang_cats lang_digits del: lang.simps(6))
qed

section \<open>Properties of the specification\<close>

text \<open>
  C1. With the substitution map \<^verbatim>\<open>{"John Doe": "<PERSON>"}\<close> and the substituted text
  \<^verbatim>\<open>"Contact <PERSON> now"\<close>, the reconciler returns exactly one span: type \<^verbatim>\<open>PERSON\<close>,
  original \<^verbatim>\<open>John Doe\<close>, replacement \<^verbatim>\<open><PERSON>\<close>, start 8, end 16. The original text and
  the list of items play no part.
\<close>

theorem reconcile_john_doe:
  "convertBackendResponseToMatches originalText ''Contact <PERSON> now'' its
     (Some [(''John Doe'', ''<PERSON>'')])
   = Some [\<lparr>type = ''PERSON'', original = ''John Doe'', replacement = ''<PERSON>'',
            start = 8, end' = 16\<rparr>]"
  by (simp add: convertBackendResponseToMatches_def scan_loop.simps scan_step_def indexOf_def
      entity_type_of_def matches_rx_def exec_def tag_shape_def cats_def run_def label_char_def
      is_upper_def normalizeEntityType_def normalize_rules_def replace_def slice_inner_def
      slice_def uniqueMatches_def sort_by_start_def)

text \<open>
  C2 (as amended). Whenever the substitution map is absent or empty, the reconciler runs
  in the tag-driven mode: it returns exactly one span for each occurrence of a bracketed
  tag \<^verbatim>\<open><LABEL>\<close> in the substituted text, from left to right. The type of the span is the
  normalised label, its replacement is the matched tag text \<^verbatim>\<open><LABEL>\<close>, its range is that
  of the occurrence, and its original is the label in square brackets, \<^verbatim>\<open>[LABEL]\<close>, which is
  not the matched tag text. The text \<^verbatim>\<open><EMAIL> sent <PHONE_NUMBER>\<close> with no map gives two
  spans, of types \<^verbatim>\<open>EMAIL\<close> and \<^verbatim>\<open>PHONE\<close>, in this order.
\<close>

theorem reconcile_tag_driven:
  assumes "syntheticMap = None \<or> syntheticMap = Some []"
  shows "convertBackendResponseToMatches originalText cleanText its syntheticMap
           = Some (map tag_span (tags_from cleanText 0))
     \<and> sorted_wrt (<) (map fst (tags_from cleanText 0))
     \<and> (\<forall>j lbl. (j, lbl) \<in> set (tags_from cleanText 0) \<longleftrightarrow> tag_at cleanText j = Some lbl)
     \<and> map_option (map type)
           (convertBackendResponseToMatches originalText ''<EMAIL> sent <PHONE_NUMBER>'' its
              syntheticMap)
         = Some [''EMAIL'', ''PHONE'']"
proof (intro conjI allI)
  show "convertBackendResponseToMatches originalText cleanText its syntheticMap
           = Some (map tag_span (tags_from cleanText 0))"
    by (rule convert_modeB[OF assms])
  show "sorted_wrt (<) (map fst (tags_from cleanText 0))" by (rule tags_from_increasing)
  show "(j, lbl) \<in> set (tags_from cleanText 0) \<longleftrightarrow> tag_at cleanText j = Some lbl" for j lbl
    by (rule tags_from_complete)
  have "map type (map tag_span (tags_from ''<EMAIL> sent <PHONE_NUMBER>'' 0))
         = [''EMAIL'', ''PHONE'']"
    by code_simp
  then show "map_option (map type)
           (convertBackendResponseToMatches originalText ''<EMAIL> sent <PHONE_NUMBER>'' its
              syntheticMap)
         = Some [''EMAIL'', ''PHONE'']"
    unfolding convert_modeB[OF assms] by simp
qed

text \<open>The example of the specification, in full.\<close>

theorem reconcile_tag_driven_witness:
  "convertBackendResponseToMatches [] ''<EMAIL> sent <PHONE_NUMBER>'' [] None
     = Some [\<lparr>type = ''EMAIL'', original = ''[EMAIL]'', replacement = ''<EMAIL>'',
              start = 0, end' = 7\<rparr>,
             \<lparr>type = ''PHONE'', original = ''[PHONE_NUMBER]'', replacement = ''<PHONE_NUMBER>'',
              start = 13, end' = 27\<rparr>]"
proof -
  have "map tag_span (tags_from ''<EMAIL> sent <PHONE_NUMBER>'' 0)
     = [\<lparr>type = ''EMAIL'', original = ''[EMAIL]'', replacement = ''<EMAIL>'',
              start = 0, end' = 7\<rparr>,
             \<lparr>type = ''PHONE'', original = ''[PHONE_NUMBER]'', replacement = ''<PHONE_NUMBER>'',
              start = 13, end' = 27\<rparr>]"
    by code_simp
  with reconcile_tag_driven[of None "[]" "''<EMAIL> sent <PHONE_NUMBER>''" "[]"]
  show ?thesis by simp
qed

text \<open>The original of such a span is not the bracketed tag itself: for the tag
  \<^verbatim>\<open><EMAIL>\<close> it is \<^verbatim>\<open>[EMAIL]\<close>.\<close>

theorem reconcile_tag_original_counterexample:
  "convertBackendResponseToMatches [] ''<EMAIL>'' [] None
     = Some [\<lparr>type = ''EMAIL'', original = ''[EMAIL]'', replacement = ''<EMAIL>'',
              start = 0, end' = 7\<rparr>]
   \<and> ''[EMAIL]'' \<noteq> ''<EMAIL>''"
  by code_simp

text \<open>
  C3. For every input text \<^verbatim>\<open>detectPII\<close> returns, and the list it returns is sorted by
  start; for every original text, substituted text, item list and substitution map
  \<^verbatim>\<open>convertBackendResponseToMatches\<close> returns, and the list it returns is sorted by start.
\<close>

theorem span_lists_sorted_by_start:
  "(\<exists>ms. detectPII text = Some ms \<and> sorted (map start ms))
   \<and> (\<exists>ms. convertBackendResponseToMatches originalText cleanText its syntheticMap = Some ms
          \<and> sorted (map start ms))"
proof
  show "\<exists>ms. detectPII text = Some ms \<and> sorted (map start ms)"
    using detectPII_total[of "text"] by blast
  show "\<exists>ms. convertBackendResponseToMatches originalText cleanText its syntheticMap = Some ms
          \<and> sorted (map start ms)"
    using convert_total[of originalText cleanText its syntheticMap] by blast
qed

text \<open>
  C4 (as amended). Every span that \<^verbatim>\<open>detectPII\<close> returns has \<open>0 \<le> start < end\<close>. Every
  span that \<^verbatim>\<open>convertBackendResponseToMatches\<close> returns is exactly as wide as its replacement
  token and lies within the substituted text; so it has \<open>0 \<le> start < end\<close> whenever no
  replacement token of the map is the empty string, in particular whenever the map is
  absent or empty. (Offsets are natural numbers, so \<open>0 \<le> start\<close> always holds.)
\<close>

theorem spans_have_positive_width:
  "(\<exists>ms. detectPII text = Some ms \<and> (\<forall>m\<in>set ms. 0 \<le> start m \<and> start m < end' m))
   \<and> (\<exists>ms. convertBackendResponseToMatches originalText cleanText its syntheticMap = Some ms
          \<and> (\<forall>m\<in>set ms. end' m = start m + length (replacement m)
                 \<and> end' m \<le> length cleanText
                 \<and> ([] \<notin> snd ` set (case syntheticMap of None \<Rightarrow> [] | Some es \<Rightarrow> es)
                      \<longrightarrow> 0 \<le> start m \<and> start m < end' m)))"
proof
  show "\<exists>ms. detectPII text = Some ms \<and> (\<forall>m\<in>set ms. 0 \<le> start m \<and> start m < end' m)"
    using detectPII_total[of "text"] by auto
  show "\<exists>ms. convertBackendResponseToMatches originalText cleanText its syntheticMap = Some ms
          \<and> (\<forall>m\<in>set ms. end' m = start m + length (replacement m)
                 \<and> end' m \<le> length cleanText
                 \<and> ([] \<notin> snd ` set (case syntheticMap of None \<Rightarrow> [] | Some es \<Rightarrow> es)
                      \<longrightarrow> 0 \<le> start m \<and> start m < end' m))"
    using convert_total[of originalText cleanText its syntheticMap] by auto
qed

text \<open>Both functions at inputs for which they return a span.\<close>

theorem spans_have_positive_width_witness:
  "[] \<notin> snd ` set [(''John Doe'', ''<PERSON>'')]
   \<and> convertBackendResponseToMatches [] ''Contact <PERSON> now'' []
         (Some [(''John Doe'', ''<PERSON>'')])
       = Some [\<lparr>type = ''PERSON'', original = ''John Doe'', replacement = ''<PERSON>'',
                start = 8, end' = 16\<rparr>]
   \<and> detectPII ''1.2.3.4''
       = Some [\<lparr>type = ''IP_ADDRESS'', original = ''1.2.3.4'', replacement = ''[REDACTED_IP]'',
                start = 0, end' = 7\<rparr>]
   \<and> list_all (\<lambda>m. start m < end' m)
        [\<lparr>type = ''PERSON'', original = ''John Doe'', replacement = ''<PERSON>'',
                start = 8, end' = 16\<rparr>,
         \<lparr>type = ''IP_ADDRESS'', original = ''1.2.3.4'', replacement = ''[REDACTED_IP]'',
                start = 0, end' = 7\<rparr>]"
proof -
  have h: "[] \<notin> snd ` set [(''John Doe'', ''<PERSON>'')]" by simp
  have c: "convertBackendResponseToMatches [] ''Contact <PERSON> now'' []
         (Some [(''John Doe'', ''<PERSON>'')])
       = Some [\<lparr>type = ''PERSON'', original = ''John Doe'', replacement = ''<PERSON>'',
                start = 8, end' = 16\<rparr>]" by code_simp
  have d: "detectPII ''1.2.3.4''
       = Some [\<lparr>type = ''IP_ADDRESS'', original = ''1.2.3.4'', replacement = ''[REDACTED_IP]'',
                start = 0, end' = 7\<rparr>]" by code_simp
  from spans_have_positive_width[of "''1.2.3.4''" "[]" "''Contact <PERSON> now''" "[]"
      "Some [(''John Doe'', ''<PERSON>'')]"] h
  show ?thesis unfolding c d by simp
qed

text \<open>An empty replacement token gives spans of zero width: with the map \<^verbatim>\<open>{"x": ""}\<close>
  and the text \<^verbatim>\<open>ab\<close> the scan accepts the empty occurrences at offsets 0 and 1.\<close>

theorem empty_token_zero_width_counterexample:
  "convertBackendResponseToMatches [] ''ab'' [] (Some [(''x'', [])])
     = Some [\<lparr>type = ''PERSON'', original = ''x'', replacement = [], start = 0, end' = 0\<rparr>,
             \<lparr>type = ''PERSON'', original = ''x'', replacement = [], start = 1, end' = 1\<rparr>]
   \<and> \<not> list_all (\<lambda>m. start m < end' m)
        [\<lparr>type = ''PERSON'', original = ''x'', replacement = [], start = 0, end' = 0\<rparr>,
         \<lparr>type = ''PERSON'', original = ''x'', replacement = [], start = 1, end' = 1\<rparr>]"
proof
  show "convertBackendResponseToMatches [] ''ab'' [] (Some [(''x'', [])])
     = Some [\<lparr>type = ''PERSON'', original = ''x'', replacement = [], start = 0, end' = 0\<rparr>,
             \<lparr>type = ''PERSON'', original = ''x'', replacement = [], start = 1, end' = 1\<rparr>]"
    by code_simp
  show "\<not> list_all (\<lambda>m. start m < end' m)
        [\<lparr>type = ''PERSON'', original = ''x'', replacement = [], start = 0, end' = 0\<rparr>,
         \<lparr>type = ''PERSON'', original = ''x'', replacement = [], start = 1, end' = 1\<rparr>]"
    by simp
qed

text \<open>
  C5. For every text and every span list that satisfies the precondition of the
  segmenter (every span within the text, the spans sorted by start and pairwise
  non-overlapping), what \<^verbatim>\<open>RedactedText\<close> renders consumes the text exactly: read from offset
  0, every plain part is a non-empty piece of the text that starts where the part before
  it ended, the part of every span stands at the start of that span, shows its replacement
  and ends at the end of the span, and the last part ends at the end of the text. There
  is one highlighted part for each span, in the order of the spans. (Only for the empty
  text, where all that is rendered is the placeholder, can the list hold spans that are
  not rendered; they are of zero width, which the invariant of a span excludes.)
\<close>

theorem segmenter_consumes_text_exactly:
  assumes "segmenter_pre text ms"
  shows "consume text ms 0 (rendered_parts (RedactedText text ms)) = Some (length text)
     \<and> (redacted_indices (rendered_parts (RedactedText text ms)) = [0..<length ms]
         \<or> text = [] \<and> list_all (\<lambda>m. start m = 0 \<and> end' m = 0) ms)"
proof -
  from assms have a: "\<forall>m\<in>set ms. start m \<le> end' m \<and> end' m \<le> length text"
    and s: "sorted_wrt (\<lambda>a b. end' a \<le> start b) ms"
    unfolding segmenter_pre_def by (simp_all add: list_all_iff)
  show ?thesis
  proof (cases "text = []")
    case True
    with a have "list_all (\<lambda>m. start m = 0 \<and> end' m = 0) ms" by (auto simp: list_all_iff)
    with True show ?thesis by (simp add: RedactedText_def)
  next
    case False
    note ne = this
    show ?thesis
    proof (cases "ms = []")
      case True
      with ne show ?thesis by (simp add: RedactedText_def slice_def)
    next
      case False
      obtain L ps where f: "forEach_match text ms 0 0 [] = (L, ps)"
        by (cases "forEach_match text ms 0 0 []")
      have "consume text ms 0 ps = Some L \<and> redacted_indices ps = [0..<length ms]
              \<and> (ms = [] \<or> L \<le> length text)"
        by (rule forEach_match_consumes[OF _ _ _ _ _ s f]) (use a in simp_all)
      with False have c: "consume text ms 0 ps = Some L"
        and r: "redacted_indices ps = [0..<length ms]" and l: "L \<le> length text" by simp_all
      show ?thesis
      proof (cases "L < length text")
        case True
        then have "consume text ms L [TextEnd (slice_from text L)] = Some (length text)"
          by (simp add: slice_from_def slice_def)
        with True ne False f c r show ?thesis
          by (simp add: RedactedText_def consume_append redacted_indices_append)
      next
        case False
        with l have "L = length text" by simp
        with False ne \<open>ms \<noteq> []\<close> f c r show ?thesis
          by (simp add: RedactedText_def)
      qed
    qed
  qed
qed

text \<open>The parts rendered for the text and the span of the first example.\<close>

theorem segmenter_consumes_text_exactly_witness:
  "segmenter_pre ''Contact <PERSON> now''
     [\<lparr>type = ''PERSON'', original = ''John Doe'', replacement = ''<PERSON>'',
       start = 8, end' = 16\<rparr>]
   \<and> RedactedText ''Contact <PERSON> now''
       [\<lparr>type = ''PERSON'', original = ''John Doe'', replacement = ''<PERSON>'',
         start = 8, end' = 16\<rparr>]
     = Parts [TextPart 0 ''Contact '', RedactedPart 0 ''<PERSON>'', TextEnd '' now'']
   \<and> consume ''Contact <PERSON> now''
       [\<lparr>type = ''PERSON'', original = ''John Doe'', replacement = ''<PERSON>'',
         start = 8, end' = 16\<rparr>] 0
       [TextPart 0 ''Contact '', RedactedPart 0 ''<PERSON>'', TextEnd '' now''] = Some 20"
  (is "?pre \<and> ?r \<and> ?c")
proof -
  have pre: ?pre by (simp add: segmenter_pre_def)
  have r: ?r by (simp add: RedactedText_def slice_def slice_from_def)
  from segmenter_consumes_text_exactly[OF pre] have ?c unfolding r by simp
  with pre r show ?thesis by blast
qed

text \<open>
  C6. \<^verbatim>\<open>inferEntityType\<close> tests its shapes in a fixed order of priority: a value that
  contains \<^verbatim>\<open>@\<close> is an \<^verbatim>\<open>EMAIL\<close>; else one of the national-id shape (3 digits, 2 digits
  and 4 digits, with an optional dash after the first and after the second group) is an
  \<^verbatim>\<open>SSN\<close>; else one of the shape of four groups of 4 digits, with an optional dash or
  white space between two groups, is a \<^verbatim>\<open>CREDIT_CARD\<close>; else one that consists, after an
  optional \<^verbatim>\<open>+\<close>, of at least 10 digits, white space, dashes and parentheses is a \<^verbatim>\<open>PHONE\<close>;
  else one that starts with \<^verbatim>\<open>sk-\<close>, \<^verbatim>\<open>ghp_\<close> or \<^verbatim>\<open>AKIA\<close> is an \<^verbatim>\<open>API_KEY\<close>; else one of the
  dotted-quad shape (four groups of 1 to 3 digits, with dots between them) is an \<^verbatim>\<open>IP\<close>;
  every other value is a \<^verbatim>\<open>PERSON\<close>. So \<^verbatim>\<open>192.168.1.1\<close> is an \<^verbatim>\<open>IP\<close>, \<^verbatim>\<open>jane@x.com\<close> an
  \<^verbatim>\<open>EMAIL\<close> and \<^verbatim>\<open>Jane Smith\<close> a \<^verbatim>\<open>PERSON\<close>. The order decides where shapes overlap:
  \<^verbatim>\<open>123-45-6789\<close> also has the phone shape and is an \<^verbatim>\<open>SSN\<close>, \<^verbatim>\<open>sk-a@b\<close> also has a credential
  prefix and is an \<^verbatim>\<open>EMAIL\<close>.
\<close>

theorem inferEntityType_priority:
  "inferEntityType v =
     (if CHR ''@'' \<in> set v then ''EMAIL''
      else if v \<in> seq [digit_strings 3 3, opt_char (\<lambda>c. c = CHR ''-''), digit_strings 2 2,
                        opt_char (\<lambda>c. c = CHR ''-''), digit_strings 4 4] then ''SSN''
      else if v \<in> seq [digit_strings 4 4, opt_char dash_or_space, digit_strings 4 4,
                        opt_char dash_or_space, digit_strings 4 4, opt_char dash_or_space,
                        digit_strings 4 4] then ''CREDIT_CARD''
      else if (\<exists>body. (v = body \<or> v = ''+'' @ body) \<and> 10 \<le> length body
                 \<and> list_all phone_char body) then ''PHONE''
      else if prefix ''sk-'' v \<or> prefix ''ghp_'' v \<or> prefix ''AKIA'' v then ''API_KEY''
      else if v \<in> seq [digit_strings 1 3, {''.''}, digit_strings 1 3, {''.''},
                        digit_strings 1 3, {''.''}, digit_strings 1 3] then ''IP''
      else ''PERSON'')
   \<and> inferEntityType ''192.168.1.1'' = ''IP''
   \<and> inferEntityType ''jane@x.com'' = ''EMAIL''
   \<and> inferEntityType ''Jane Smith'' = ''PERSON''
   \<and> matches_rx ''123-45-6789'' phone_shape
   \<and> inferEntityType ''123-45-6789'' = ''SSN''
   \<and> matches_rx ''sk-a@b'' key_prefix_shape
   \<and> inferEntityType ''sk-a@b'' = ''EMAIL''"
proof (intro conjI)
  show "inferEntityType v =
     (if CHR ''@'' \<in> set v then ''EMAIL''
      else if v \<in> seq [digit_strings 3 3, opt_char (\<lambda>c. c = CHR ''-''), digit_strings 2 2,
                        opt_char (\<lambda>c. c = CHR ''-''), digit_strings 4 4] then ''SSN''
      else if v \<in> seq [digit_strings 4 4, opt_char dash_or_space, digit_strings 4 4,
                        opt_char dash_or_space, digit_strings 4 4, opt_char dash_or_space,
                        digit_strings 4 4] then ''CREDIT_CARD''
      else if (\<exists>body. (v = body \<or> v = ''+'' @ body) \<and> 10 \<le> length body
                 \<and> list_all phone_char body) then ''PHONE''
      else if prefix ''sk-'' v \<or> prefix ''ghp_'' v \<or> prefix ''AKIA'' v then ''API_KEY''
      else if v \<in> seq [digit_strings 1 3, {''.''}, digit_strings 1 3, {''.''},
                        digit_strings 1 3, {''.''}, digit_strings 1 3] then ''IP''
      else ''PERSON'')"
    unfolding inferEntityType_def includes_str_single phone_shape_iff key_prefix_shape_iff
      ssn_shape_iff card_shape_iff ip_shape_iff
    by (rule refl)
  show "inferEntityType ''192.168.1.1'' = ''IP''" by code_simp
  show "inferEntityType ''jane@x.com'' = ''EMAIL''" by code_simp
  show "inferEntityType ''Jane Smith'' = ''PERSON''" by code_simp
  show "matches_rx ''123-45-6789'' phone_shape" by code_simp
  show "inferEntityType ''123-45-6789'' = ''SSN''" by code_simp
  show "matches_rx ''sk-a@b'' key_prefix_shape" by code_simp
  show "inferEntityType ''sk-a@b'' = ''EMAIL''" by code_simp
qed

text \<open>
  C7. \<^verbatim>\<open>normalizeEntityType\<close> is a total function on strings (it is defined for every
  string, with no partiality in the model): it maps \<^verbatim>\<open>US_SSN\<close> to \<^verbatim>\<open>SSN\<close> and
  \<^verbatim>\<open>IP_ADDRESS\<close> to \<^verbatim>\<open>IP\<close>, and a label that contains the search text of no rewrite rule,
  such as \<^verbatim>\<open>UNKNOWN_TAG\<close>, is returned unchanged.
\<close>

theorem normalizeEntityType_rules:
  "normalizeEntityType ''US_SSN'' = ''SSN''
   \<and> normalizeEntityType ''IP_ADDRESS'' = ''IP''
   \<and> normalizeEntityType ''UNKNOWN_TAG'' = ''UNKNOWN_TAG''
   \<and> ((\<forall>rule\<in>set normalize_rules. \<not> includes_str label (fst rule))
        \<longrightarrow> normalizeEntityType label = label)"
proof (intro conjI impI)
  show "normalizeEntityType ''US_SSN'' = ''SSN''"
    by (simp add: normalizeEntityType_def normalize_rules_def replace_def indexOf_def)
  show "normalizeEntityType ''IP_ADDRESS'' = ''IP''"
    by (simp add: normalizeEntityType_def normalize_rules_def replace_def indexOf_def)
  show "normalizeEntityType ''UNKNOWN_TAG'' = ''UNKNOWN_TAG''"
    by (simp add: normalizeEntityType_def normalize_rules_def replace_def indexOf_def)
  assume "\<forall>rule\<in>set normalize_rules. \<not> includes_str label (fst rule)"
  then show "normalizeEntityType label = label"
    by (simp add: normalizeEntityType_def normalize_rules_def replace_absent)
qed

text \<open>A label of the catalog that no rule rewrites.\<close>

theorem normalizeEntityType_rules_witness:
  "list_all (\<lambda>rule. \<not> includes_str ''CREDIT_CARD'' (fst rule)) normalize_rules
   \<and> normalizeEntityType ''CREDIT_CARD'' = ''CREDIT_CARD''"
proof -
  have h: "list_all (\<lambda>rule. \<not> includes_str ''CREDIT_CARD'' (fst rule)) normalize_rules"
    by (simp add: normalize_rules_def includes_str_def indexOf_def)
  then have "\<forall>rule\<in>set normalize_rules. \<not> includes_str ''CREDIT_CARD'' (fst rule)"
    by (simp add: list_all_iff)
  with normalizeEntityType_rules[of "''CREDIT_CARD''"] h show ?thesis by blast
qed

text \<open>
  C8. After the sanitize call has succeeded, a failed or rate-limited audit changes
  only the audit status and the audit result: the sanitized text is still the text of
  the response, the span list is still the reconciled one, the input is untouched and the
  history still starts with the entry recorded for this submission.
\<close>

theorem audit_failure_keeps_sanitized_output:
  assumes "sanitize_succeeded response now st = Some st1"
  shows "audit_settled (AuditError msg) st1
           = st1\<lparr>auditStatus := auditStatus (audit_settled (AuditError msg) st1),
                 auditResult := None\<rparr>
     \<and> auditStatus (audit_settled (AuditError msg) st1) \<in> {Failed, Rate_limited}
     \<and> sanitizedText (audit_settled (AuditError msg) st1) = clean_text response
     \<and> Some (currentMatches (audit_settled (AuditError msg) st1))
         = convertBackendResponseToMatches (input st) (clean_text response) (items response)
             (synthetic_map response)
     \<and> input (audit_settled (AuditError msg) st1) = input st
     \<and> history (audit_settled (AuditError msg) st1)
         = \<lparr>entry_id = now, entry_input = input st,
             entry_matches = currentMatches (audit_settled (AuditError msg) st1),
             entry_timestamp = now\<rparr> # history st"
  using assms unfolding sanitize_succeeded_def audit_settled_def Let_def
  by (auto split: option.splits)

text \<open>A submission from the initial state, with the response of the first example and an
  audit that fails with a rate-limit message.\<close>

theorem audit_failure_keeps_sanitized_output_witness:
  "sanitize_succeeded
     \<lparr>clean_text = ''Contact <PERSON> now'', items = [''PERSON''], processing_time_ms = 12,
      synthetic_map = Some [(''John Doe'', ''<PERSON>'')]\<rparr> 7
     (initial_state\<lparr>input := ''Contact John Doe now''\<rparr>)
   = Some (initial_state
       \<lparr>input := ''Contact John Doe now'',
        sanitizedText := ''Contact <PERSON> now'',
        processingTime := Some 12,
        currentMatches := [\<lparr>type = ''PERSON'', original = ''John Doe'',
                             replacement = ''<PERSON>'', start = 8, end' = 16\<rparr>],
        isScanning := False,
        activeStep := ''verify'',
        history := [\<lparr>entry_id = 7, entry_input = ''Contact John Doe now'',
                      entry_matches = [\<lparr>type = ''PERSON'', original = ''John Doe'',
                             replacement = ''<PERSON>'', start = 8, end' = 16\<rparr>],
                      entry_timestamp = 7\<rparr>],
        isLoadingAI := True,
        aiError := None,
        auditStatus := Running\<rparr>)
   \<and> sanitizedText (audit_settled (AuditError ''HTTP 429'')
        (initial_state
       \<lparr>input := ''Contact John Doe now'',
        sanitizedText := ''Contact <PERSON> now'',
        processingTime := Some 12,
        currentMatches := [\<lparr>type = ''PERSON'', original = ''John Doe'',
                             replacement = ''<PERSON>'', start = 8, end' = 16\<rparr>],
        isScanning := False,
        activeStep := ''verify'',
        history := [\<lparr>entry_id = 7, entry_input = ''Contact John Doe now'',
                      entry_matches = [\<lparr>type = ''PERSON'', original = ''John Doe'',
                             replacement = ''<PERSON>'', start = 8, end' = 16\<rparr>],
                      entry_timestamp = 7\<rparr>],
        isLoadingAI := True,
        aiError := None,
        auditStatus := Running\<rparr>)) = ''Contact <PERSON> now''"
  (is "?h \<and> ?c")
proof -
  have c: "convertBackendResponseToMatches ''Contact John Doe now'' ''Contact <PERSON> now''
      [''PERSON''] (Some [(''John Doe'', ''<PERSON>'')])
    = Some [\<lparr>type = ''PERSON'', original = ''John Doe'', replacement = ''<PERSON>'',
            start = 8, end' = 16\<rparr>]"
    by (simp add: convertBackendResponseToMatches_def scan_loop.simps scan_step_def indexOf_def
      entity_type_of_def matches_rx_def exec_def tag_shape_def cats_def run_def label_char_def
      is_upper_def normalizeEntityType_def normalize_rules_def replace_def slice_inner_def
      slice_def uniqueMatches_def sort_by_start_def)
  have h: ?h
    by (simp add: sanitize_succeeded_def c initial_state_def)
  from audit_failure_keeps_sanitized_output[OF h, of "''HTTP 429''"] h show ?thesis
    by simp
qed

text \<open>
  C9. \<^verbatim>\<open>convertBackendResponseToMatches\<close> returns for every original text, substituted
  text, item list and substitution map, and so does the scan loop of the map-driven mode
  for every entry (whatever its token: empty, or part of another token) and from every
  state. One iteration finds an occurrence at or after the cursor and moves the cursor
  one past its start when its range is already claimed, else to its end; in any two
  consecutive iterations the cursor strictly increases.
\<close>

theorem reconcile_terminates:
  "(\<exists>ms. convertBackendResponseToMatches originalText cleanText its syntheticMap = Some ms)
   \<and> (\<exists>st'. scan_loop cleanText orig repl st = Some st')
   \<and> (scan_step cleanText orig repl st = Some st1 \<longrightarrow>
        (\<exists>index. indexOf cleanText repl (searchIndex st) = Some index
           \<and> searchIndex st \<le> index
           \<and> searchIndex st1 =
               (if (index, index + length repl) \<in> processedPositions st then index + 1
                else index + length repl)))
   \<and> (scan_step cleanText orig repl st = Some st1 \<and> scan_step cleanText orig repl st1 = Some st2
        \<longrightarrow> searchIndex st < searchIndex st2)"
proof (intro conjI impI)
  show "\<exists>ms. convertBackendResponseToMatches originalText cleanText its syntheticMap = Some ms"
    using convert_total[of originalText cleanText its syntheticMap] by blast
  show "\<exists>st'. scan_loop cleanText orig repl st = Some st'"
    using scan_loop_rule[of "\<lambda>_. True" st cleanText orig repl] by blast
next
  assume s: "scan_step cleanText orig repl st = Some st1"
  then show "\<exists>index. indexOf cleanText repl (searchIndex st) = Some index
           \<and> searchIndex st \<le> index
           \<and> searchIndex st1 =
               (if (index, index + length repl) \<in> processedPositions st then index + 1
                else index + length repl)"
  proof (cases rule: scan_step_cases)
    case (claimed index)
    from indexOf_SomeD(1)[OF claimed(2)] claimed(1) have "searchIndex st \<le> index" by simp
    with claimed show ?thesis by simp
  next
    case (accepted index)
    from indexOf_SomeD(1)[OF accepted(2)] accepted(1) have "searchIndex st \<le> index" by simp
    with accepted show ?thesis by simp
  qed
next
  assume "scan_step cleanText orig repl st = Some st1 \<and> scan_step cleanText orig repl st1 = Some st2"
  then have s1: "scan_step cleanText orig repl st = Some st1"
    and s2: "scan_step cleanText orig repl st1 = Some st2" by simp_all
  have mono: "searchIndex a \<le> searchIndex b" if "scan_step cleanText orig repl a = Some b" for a b
    using that
  proof (cases rule: scan_step_cases)
    case (claimed index)
    from indexOf_SomeD(1)[OF claimed(2)] claimed(1,4) show ?thesis by simp
  next
    case (accepted index)
    from indexOf_SomeD(1)[OF accepted(2)] accepted(1,4) show ?thesis by simp
  qed
  from s1 show "searchIndex st < searchIndex st2"
  proof (cases rule: scan_step_cases)
    case (claimed index)
    from indexOf_SomeD(1)[OF claimed(2)] claimed(1,4) have "searchIndex st < searchIndex st1"
      by simp
    with mono[OF s2] show ?thesis by simp
  next
    case (accepted index)
    note first = accepted
    have le: "searchIndex st \<le> index" using indexOf_SomeD(1)[OF first(2)] first(1) by simp
    show ?thesis
    proof (cases "searchIndex st < searchIndex st1")
      case True
      with mono[OF s2] show ?thesis by simp
    next
      case False
      then have "index + length repl \<le> searchIndex st" by (simp add: first(4))
      with le have "index = searchIndex st \<and> length repl = 0" by linarith
      then have eq: "index = searchIndex st" "repl = []" by simp_all
      have st1: "searchIndex st1 = searchIndex st"
        "processedPositions st1 = insert (index, index) (processedPositions st)"
        using eq by (simp_all add: first(4))
      from s2 show ?thesis
      proof (cases rule: scan_step_cases)
        case (claimed index2)
        from indexOf_SomeD(1)[OF claimed(2)] claimed(1) have "searchIndex st1 \<le> index2" by simp
        then show ?thesis using claimed(4) st1(1) by simp
      next
        case (accepted index2)
        from first(2) accepted(2) have "index2 = index" by (simp add: st1(1))
        with accepted(3) eq(2) st1(2) show ?thesis by simp
      qed
    qed
  qed
qed

text \<open>Two consecutive iterations for an empty token: the first accepts the empty
  occurrence at offset 0 and leaves the cursor there, the second finds the range claimed
  and moves the cursor to 1.\<close>

theorem reconcile_terminates_witness:
  "scan_step ''ab'' ''x'' [] \<lparr>searchIndex = 0, processedPositions = {}, matches = []\<rparr>
     = Some \<lparr>searchIndex = 0, processedPositions = {(0, 0)},
             matches = [\<lparr>type = ''PERSON'', original = ''x'', replacement = [],
                         start = 0, end' = 0\<rparr>]\<rparr>
   \<and> scan_step ''ab'' ''x'' []
         \<lparr>searchIndex = 0, processedPositions = {(0, 0)},
          matches = [\<lparr>type = ''PERSON'', original = ''x'', replacement = [],
                      start = 0, end' = 0\<rparr>]\<rparr>
     = Some \<lparr>searchIndex = 1, processedPositions = {(0, 0)},
             matches = [\<lparr>type = ''PERSON'', original = ''x'', replacement = [],
                         start = 0, end' = 0\<rparr>]\<rparr>
   \<and> searchIndex \<lparr>searchIndex = 0, processedPositions = {}, matches = []\<rparr>
       < searchIndex \<lparr>searchIndex = 1, processedPositions = {(0, 0)},
             matches = [\<lparr>type = ''PERSON'', original = ''x'', replacement = [],
                         start = 0, end' = 0\<rparr>]\<rparr>"
  (is "?s1 \<and> ?s2 \<and> ?lt")
proof -
  have t: "entity_type_of ''x'' [] = ''PERSON''" by code_simp
  have s1: ?s1 by (simp add: scan_step_def indexOf_def t)
  have s2: ?s2 by (simp add: scan_step_def indexOf_def)
  from reconcile_terminates[of "[]" "''ab''" "[]" None "''x''" "[]"
      "\<lparr>searchIndex = 0, processedPositions = {}, matches = []\<rparr>"
      "\<lparr>searchIndex = 0, processedPositions = {(0, 0)},
             matches = [\<lparr>type = ''PERSON'', original = ''x'', replacement = [],
                         start = 0, end' = 0\<rparr>]\<rparr>"
      "\<lparr>searchIndex = 1, processedPositions = {(0, 0)},
             matches = [\<lparr>type = ''PERSON'', original = ''x'', replacement = [],
                         start = 0, end' = 0\<rparr>]\<rparr>"] s1 s2
  have ?lt by blast
  with s1 s2 show ?thesis by blast
qed

text \<open>
  C10. In every list that \<^verbatim>\<open>convertBackendResponseToMatches\<close> returns, the ranges
  \<open>(start, end)\<close> of the spans are pairwise distinct.
\<close>

theorem reconcile_ranges_distinct:
  "\<exists>ms. convertBackendResponseToMatches originalText cleanText its syntheticMap = Some ms
      \<and> distinct (map span_range ms)"
  using convert_total[of originalText cleanText its syntheticMap] by blast

end
